theory Spec2Isabelle
  imports Complex_Main "HOL-Library.Word"
begin

section \<open>Unused JavaScript summary: the data\<close>

text \<open>
  The module \<^verbatim>\<open>unused-javascript-summary.js\<close> turns the coverage records of a script
  into a count of unused bytes, scales it to the transfer size and attributes the unused
  bytes to the files of a source map.

  JavaScript numbers that hold offsets, lengths and counts are modelled as \<open>int\<close>. The
  numbers of \<open>mergeWaste\<close>, where a division can produce \<open>NaN\<close> or an infinity, are
  modelled by the type \<open>jsnum\<close> below. A read that yields \<open>undefined\<close> is the value
  \<open>None\<close>. The functions below describe the calls that the engine completes; where the
  engine gives up with a \<open>RangeError\<close> (a typed array longer than it supports, more
  arguments spread into \<open>Math.max\<close> than a call can take), \<open>compute_\<close> rejects, and
  the two limits are parameters of its model.

  Names follow the source. Where the source's name is reserved here, it carries a suffix
  or a prefix: the field \<open>functions\<close> of a coverage is \<open>functions_cov\<close>, the field
  \<open>bundle\<close> of the input is \<open>bundle_opt\<close>, the field \<open>url\<close> of a Summary is
  \<open>item_url\<close>, and the function \<open>compute_\<close> is \<open>compute_summary\<close>.
\<close>

record coverageRange =
  startOffset :: int
  endOffset :: int
  count :: int

record functionCoverage =
  ranges :: "coverageRange list"

record scriptCoverage =
  functions_cov :: "functionCoverage list"

text \<open>\<open>WasteData\<close>: the \<open>Uint8Array\<close> is a list of bytes.\<close>

record wasteData =
  unusedByIndex :: "8 word list"
  unusedLength :: int
  contentLength :: int

section \<open>Reading and writing arrays\<close>

text \<open>
  \<open>xs[i]\<close> on an array or typed array: \<open>undefined\<close> outside \<open>0 \<le> i < length\<close>.
\<close>

definition js_nth :: "'a list \<Rightarrow> int \<Rightarrow> 'a option" where
  "js_nth xs i = (if 0 \<le> i \<and> i < int (length xs) then Some (xs ! nat i) else None)"

text \<open>
  \<open>arr[i] = v\<close> on a typed array: a write outside \<open>0 \<le> i < length\<close> is dropped, the
  array never grows.
\<close>

definition typed_set :: "8 word list \<Rightarrow> int \<Rightarrow> 8 word \<Rightarrow> 8 word list" where
  "typed_set arr i v = (if 0 \<le> i \<and> i < int (length arr) then arr[nat i := v] else arr)"

section \<open>computeWaste\<close>

text \<open>
  \<open>Math.max(m, ...xs)\<close> folded over the functions, starting from 0.
\<close>

definition maximumEndOffset :: "scriptCoverage \<Rightarrow> int" where
  "maximumEndOffset scriptCoverage =
     fold (\<lambda>func m. fold max (map endOffset (ranges func)) m) (functions_cov scriptCoverage) 0"

text \<open>
  \<open>for (let i = range.startOffset; i < range.endOffset; i++) unusedByIndex[i] = 1\<close>
\<close>

function mark_loop :: "int \<Rightarrow> int \<Rightarrow> 8 word list \<Rightarrow> 8 word list" where
  "mark_loop i e arr = (if i < e then mark_loop (i + 1) e (typed_set arr i 1) else arr)"
  by pat_completeness auto
termination
  by (relation "measure (\<lambda>(i, e, arr). nat (e - i))") auto

declare mark_loop.simps [simp del]

definition mark_range :: "coverageRange \<Rightarrow> 8 word list \<Rightarrow> 8 word list" where
  "mark_range r arr =
     (if count r = 0 then mark_loop (startOffset r) (endOffset r) arr else arr)"

definition mark_function :: "functionCoverage \<Rightarrow> 8 word list \<Rightarrow> 8 word list" where
  "mark_function func arr = fold mark_range (ranges func) arr"

definition sum_bytes :: "8 word list \<Rightarrow> int" where
  "sum_bytes arr = fold (\<lambda>x unused. unused + uint x) arr 0"

definition computeWaste :: "scriptCoverage \<Rightarrow> wasteData" where
  "computeWaste scriptCoverage =
     (let m = maximumEndOffset scriptCoverage;
          arr = fold mark_function (functions_cov scriptCoverage) (replicate (nat m) 0)
      in \<lparr>unusedByIndex = arr, unusedLength = sum_bytes arr, contentLength = m\<rparr>)"

text \<open>Vocabulary of the statements: every range of a coverage, in the order given.\<close>

definition all_ranges :: "scriptCoverage \<Rightarrow> coverageRange list" where
  "all_ranges scriptCoverage = concat (map ranges (functions_cov scriptCoverage))"

definition in_unused_range :: "coverageRange list \<Rightarrow> int \<Rightarrow> bool" where
  "in_unused_range rs k =
     list_ex (\<lambda>r. count r = 0 \<and> startOffset r \<le> k \<and> k < endOffset r) rs"

definition count_unused :: "8 word list \<Rightarrow> int" where
  "count_unused arr = int (length (filter (\<lambda>x. x = 1) arr))"

section \<open>JavaScript numbers in the ratio computation\<close>

text \<open>
  A JavaScript number is an IEEE 754 double: \<open>NaN\<close>, an infinity, or a finite value
  \<open>m * 2^e\<close> with an integer \<open>m\<close> below \<open>2^53\<close> in magnitude and
  \<open>-1074 \<le> e \<le> 971\<close>. A finite double is modelled by the rational that it is; the
  sign of zero is not modelled (\<open>-0\<close> and \<open>0\<close> are equal and both falsy in the
  source's tests). Division and multiplication return the double nearest to the exact
  result, a tie going to the even significand, as IEEE 754 prescribes.
\<close>

datatype jsnum = Fin rat | PosInf | NegInf | NaN

text \<open>The number of binary digits of a positive integer.\<close>

function bit_length :: "int \<Rightarrow> int" where
  "bit_length n = (if n \<le> 0 then 0 else 1 + bit_length (n div 2))"
  by pat_completeness auto
termination
  by (relation "measure nat") auto

declare bit_length.simps [simp del]

text \<open>\<open>2^k\<close> for an integer \<open>k\<close> of either sign.\<close>

function pow2 :: "int \<Rightarrow> rat" where
  "pow2 k =
     (if k < 0 then 1 / pow2 (- k)
      else if k = 0 then 1
      else let h = pow2 (k div 2) in if even k then h * h else 2 * (h * h))"
  by pat_completeness auto
termination
  by (relation "measure (\<lambda>k. nat (2 * \<bar>k\<bar>) + (if k < 0 then 1 else 0))") auto

declare pow2.simps [simp del]

text \<open>
  For a positive rational \<open>a = n / d\<close>, the integer \<open>k\<close> with \<open>2^k \<le> a < 2^(k+1)\<close>:
  the difference of the bit lengths of \<open>n\<close> and \<open>d\<close>, or one less.
\<close>

definition floor_log2 :: "rat \<Rightarrow> int" where
  "floor_log2 a =
     (let (n, d) = quotient_of a; k = bit_length n - bit_length d
      in if pow2 k \<le> a then k else k - 1)"

text \<open>The nearest integer, a tie going to the even one.\<close>

definition round_half_even :: "rat \<Rightarrow> int" where
  "round_half_even y =
     (let f = \<lfloor>y\<rfloor>; r = y - of_int f
      in if r < 1 / 2 then f else if 1 / 2 < r then f + 1 else if even f then f else f + 1)"

text \<open>
  The double nearest to a rational. The exponent \<open>e\<close> of the result leaves 53 binary
  digits to the significand \<open>m\<close> and is at least \<open>-1074\<close> (below that the doubles
  are subnormal). A result \<open>m * 2^e\<close> of \<open>2^1024\<close> or more, that is, one with more
  than 1024 binary digits before the point, is an infinity.
\<close>

definition round_double :: "rat \<Rightarrow> jsnum" where
  "round_double x =
     (if x = 0 then Fin 0
      else let a = \<bar>x\<bar>;
               e = max (floor_log2 a - 52) (- 1074);
               m = round_half_even (a / pow2 e);
               v = of_int m * pow2 e
           in if 1024 < bit_length m + e then (if 0 < x then PosInf else NegInf)
              else Fin (if 0 < x then v else - v))"

text \<open>\<open>a / b\<close> for two integers, which are doubles up to \<open>2^53\<close> in magnitude.\<close>

definition js_div :: "int \<Rightarrow> int \<Rightarrow> jsnum" where
  "js_div a b =
     (if b = 0 then (if a = 0 then NaN else if 0 < a then PosInf else NegInf)
      else round_double (rat_of_int a / rat_of_int b))"

text \<open>\<open>x || 0\<close>: the falsy numbers are \<open>NaN\<close> and zero.\<close>

definition js_or_zero :: "jsnum \<Rightarrow> jsnum" where
  "js_or_zero x = (case x of NaN \<Rightarrow> Fin 0 | Fin r \<Rightarrow> (if r = 0 then Fin 0 else Fin r)
                   | PosInf \<Rightarrow> PosInf | NegInf \<Rightarrow> NegInf)"

text \<open>\<open>t * x\<close> for a finite double \<open>t\<close>.\<close>

definition js_mul :: "rat \<Rightarrow> jsnum \<Rightarrow> jsnum" where
  "js_mul t x = (case x of Fin r \<Rightarrow> round_double (t * r) | NaN \<Rightarrow> NaN
     | PosInf \<Rightarrow> (if t = 0 then NaN else if 0 < t then PosInf else NegInf)
     | NegInf \<Rightarrow> (if t = 0 then NaN else if 0 < t then NegInf else PosInf))"

text \<open>
  \<open>Math.round\<close>: the integer nearest to the double, a half rounded up. The result is
  exact: it is a double whenever its argument is.
\<close>

definition Math_round :: "jsnum \<Rightarrow> jsnum" where
  "Math_round x = (case x of Fin r \<Rightarrow> Fin (of_int \<lfloor>r + 1 / 2\<rfloor>) | PosInf \<Rightarrow> PosInf
                   | NegInf \<Rightarrow> NegInf | NaN \<Rightarrow> NaN)"

section \<open>JavaScript objects used as dictionaries\<close>

text \<open>
  \<open>files\<close> and \<open>bundleData\<close> are plain objects \<open>{}\<close>, whose prototype is
  \<open>Object.prototype\<close>. Such an object is modelled by the list of its own properties in
  the order in which \<open>Object.entries\<close> enumerates them: first the keys that are array
  indices (canonical decimal numerals below \<open>2^32 - 1\<close>) in ascending numeric order, then
  the other string keys in the order of their creation.

  The values that the source stores are numbers, with one exception. A key that names a
  member of \<open>Object.prototype\<close> reads as that member while the object has no own
  property of the name, and \<open>member + 1\<close> is a string: the text of the member followed
  by \<open>1\<close>. \<open>Text k n\<close> is the text of the member \<open>k\<close> (the source text of a built-in
  function, or \<open>[object Object]\<close> for \<open>__proto__\<close>) followed by \<open>n\<close> characters \<open>1\<close>.
\<close>

datatype jsval = Num int | Text string nat

type_synonym jsobject = "(string \<times> jsval) list"

definition digit_of :: "char \<Rightarrow> int option" where
  "digit_of c = (let n = (of_char c :: int) in if 48 \<le> n \<and> n \<le> 57 then Some (n - 48) else None)"

fun parse_digits :: "int \<Rightarrow> string \<Rightarrow> int option" where
  "parse_digits acc [] = Some acc"
| "parse_digits acc (c # cs) =
     (case digit_of c of None \<Rightarrow> None | Some d \<Rightarrow> parse_digits (10 * acc + d) cs)"

definition array_index :: "string \<Rightarrow> int option" where
  "array_index s =
     (if s = [] then None
      else if hd s = CHR ''0'' \<and> tl s \<noteq> [] then None
      else (case parse_digits 0 s of None \<Rightarrow> None
            | Some n \<Rightarrow> if n < 4294967295 then Some n else None))"

text \<open>
  The names of the members of \<open>Object.prototype\<close>. All are functions, but
  \<open>__proto__\<close>, an accessor: its getter returns \<open>Object.prototype\<close>, and its setter
  ignores a value that is neither an object nor \<open>null\<close>.
\<close>

definition prototype_members :: "string list" where
  "prototype_members =
     [''constructor'', ''__defineGetter__'', ''__defineSetter__'', ''hasOwnProperty'',
      ''__lookupGetter__'', ''__lookupSetter__'', ''isPrototypeOf'', ''propertyIsEnumerable'',
      ''toString'', ''valueOf'', ''__proto__'', ''toLocaleString'']"

fun obj_update :: "string \<Rightarrow> jsval \<Rightarrow> jsobject \<Rightarrow> jsobject" where
  "obj_update k v [] = []"
| "obj_update k v ((k', v') # rest) =
     (if k' = k then (k, v) # rest else (k', v') # obj_update k v rest)"

fun obj_insert_index :: "int \<Rightarrow> string \<Rightarrow> jsval \<Rightarrow> jsobject \<Rightarrow> jsobject" where
  "obj_insert_index n k v [] = [(k, v)]"
| "obj_insert_index n k v ((k', v') # rest) =
     (case array_index k' of
        Some m \<Rightarrow> if m < n then (k', v') # obj_insert_index n k v rest
                  else (k, v) # (k', v') # rest
      | None \<Rightarrow> (k, v) # (k', v') # rest)"

text \<open>
  \<open>ob[k] = v\<close> for a number or a string \<open>v\<close>. The assignment to \<open>__proto__\<close> calls the
  setter, which ignores such a value: the object stays as it is.
\<close>

definition obj_set :: "jsobject \<Rightarrow> string \<Rightarrow> jsval \<Rightarrow> jsobject" where
  "obj_set ob k v =
     (if k = ''__proto__'' then ob
      else if map_of ob k \<noteq> None then obj_update k v ob
      else (case array_index k of Some n \<Rightarrow> obj_insert_index n k v ob
            | None \<Rightarrow> ob @ [(k, v)]))"

section \<open>determineLengths and mergeWaste\<close>

record networkRecord =
  url :: string

record lengths =
  content :: int
  unused :: int
  transfer :: rat

text \<open>
  \<open>Summary\<close>. The property \<open>sourcesWastedBytes\<close> is optional: an object either has
  no property of that name (\<open>Missing\<close>) or has it with a value (\<open>Present\<close>), which can
  be \<open>undefined\<close> (\<open>Present None\<close>).
\<close>

datatype 'a property = Missing | Present 'a

record summary =
  item_url :: string
  totalBytes :: rat
  wastedBytes :: jsnum
  wastedPercent :: jsnum
  sourcesWastedBytes :: "jsobject option property"

text \<open>
  The loop shared by \<open>mergeWaste\<close> and \<open>determineLengths\<close>:
  \<open>unused += usage.unusedLength; content += usage.contentLength\<close>.
\<close>

definition sum_usage :: "wasteData list \<Rightarrow> int \<times> int" where
  "sum_usage wasteData =
     fold (\<lambda>usage (unused, content). (unused + unusedLength usage, content + contentLength usage))
       wasteData (0, 0)"

definition wastedRatio :: "wasteData list \<Rightarrow> jsnum" where
  "wastedRatio wasteData = (let (unused, content) = sum_usage wasteData
                            in js_or_zero (js_div unused content))"

definition mergeWaste :: "wasteData list \<Rightarrow> string \<Rightarrow> lengths \<Rightarrow> summary" where
  "mergeWaste wasteData u lengths =
     (let ratio = wastedRatio wasteData;
          bytes = Math_round (js_mul (transfer lengths) ratio)
      in \<lparr>item_url = u, totalBytes = transfer lengths, wastedBytes = bytes,
          wastedPercent = js_mul 100 ratio, sourcesWastedBytes = Missing\<rparr>)"

text \<open>
  \<open>ByteEfficiencyAudit.estimateTransferSize\<close> belongs to another module; it is the
  parameter \<open>estimateTransferSize\<close> here, and returns a finite number.
\<close>

definition determineLengths ::
  "(networkRecord \<Rightarrow> int \<Rightarrow> string \<Rightarrow> rat) \<Rightarrow> wasteData list \<Rightarrow> networkRecord \<Rightarrow> lengths" where
  "determineLengths estimateTransferSize wasteData nr =
     (let (unused, content) = sum_usage wasteData
      in \<lparr>content = content, unused = unused,
          transfer = estimateTransferSize nr content ''Script''\<rparr>)"

section \<open>createSourceWastedBytes\<close>

text \<open>
  A mapping of the source map, as \<open>bundle.map.mappings()\<close> lists it after
  \<open>computeLastGeneratedColumns\<close> has run: \<open>lastColumnNumber\<close> is the column at which
  the next mapping on the same line begins, and \<open>undefined\<close> for the last mapping of a
  line.
\<close>

record sourceMapEntry =
  lineNumber :: int
  columnNumber :: int
  lastColumnNumber :: "int option"
  sourceURL :: string

text \<open>\<open>script_content\<close> is \<open>bundle.script.content\<close>, \<open>map_mappings\<close> is
  \<open>bundle.map.mappings()\<close>. A character of the text stands for one code unit of the
  JavaScript string, the unit in which columns, lengths and coverage offsets count.\<close>

record artifactBundle =
  script_content :: "string option"
  map_mappings :: "sourceMapEntry list"

text \<open>\<open>content.split('\n')\<close>\<close>

fun split_newline :: "string \<Rightarrow> string list" where
  "split_newline [] = [[]]"
| "split_newline (c # cs) =
     (if c = CHR 0x0A then [] # split_newline cs
      else (case split_newline cs of l # ls \<Rightarrow> (c # l) # ls | [] \<Rightarrow> [[c]]))"

text \<open>
  \<open>lineLengths.map(len => { const retVal = totalSoFar; totalSoFar += len + 1; return retVal; })\<close>
\<close>

fun lineOffsets_from :: "int \<Rightarrow> int list \<Rightarrow> int list" where
  "lineOffsets_from totalSoFar [] = []"
| "lineOffsets_from totalSoFar (len # lens) =
     totalSoFar # lineOffsets_from (totalSoFar + (len + 1)) lens"

text \<open>
  \<open>wasteData.every(data => data.unusedByIndex[offset] === 1)\<close>. The offset is \<open>None\<close>
  when it is \<open>NaN\<close> (the line of the mapping is not a line of the text); a typed array
  read at \<open>NaN\<close> or out of range is \<open>undefined\<close>.
\<close>

definition read_unused :: "wasteData \<Rightarrow> int option \<Rightarrow> 8 word option" where
  "read_unused data offset =
     (case offset of None \<Rightarrow> None | Some i \<Rightarrow> js_nth (unusedByIndex data) i)"

definition unused_in_every :: "wasteData list \<Rightarrow> int option \<Rightarrow> bool" where
  "unused_in_every wasteData offset = list_all (\<lambda>data. read_unused data offset = Some 1) wasteData"

text \<open>
  \<open>files[k] = (files[k] || 0) + 1\<close>. The read \<open>files[k]\<close> gives the own property
  when there is one: a number, or a string, which is not empty and so truthy, and to which
  \<open>+ 1\<close> appends a \<open>1\<close>. Without an own property it gives the member of
  \<open>Object.prototype\<close> of that name, which is truthy too, and \<open>undefined\<close> when there is
  none.
\<close>

definition increment :: "jsobject \<Rightarrow> string \<Rightarrow> jsobject" where
  "increment files k =
     obj_set files k
       (case map_of files k of
          Some (Num n) \<Rightarrow> Num ((if n = 0 then 0 else n) + 1)
        | Some (Text name n) \<Rightarrow> Text name (n + 1)
        | None \<Rightarrow> if k \<in> set prototype_members then Text k 1 else Num 1)"

text \<open>The body of the inner loop, without \<open>offset += 1\<close>.\<close>

definition attribute_offset :: "wasteData list \<Rightarrow> string \<Rightarrow> int option \<Rightarrow> jsobject \<Rightarrow> jsobject" where
  "attribute_offset wasteData src offset files =
     (if unused_in_every wasteData offset then increment files src else files)"

text \<open>
  \<open>for (let i = mapping.columnNumber; i <= lastColumnOfMapping; i++) { ...; offset += 1; }\<close>
  The comparison with an \<open>undefined\<close> bound is false.
\<close>

function (sequential) attribute_loop ::
  "wasteData list \<Rightarrow> string \<Rightarrow> int option \<Rightarrow> int \<Rightarrow> int option \<Rightarrow> jsobject \<Rightarrow> jsobject" where
  "attribute_loop wasteData src None i offset files = files"
| "attribute_loop wasteData src (Some l) i offset files =
     (if i \<le> l
      then attribute_loop wasteData src (Some l) (i + 1) (map_option (\<lambda>offset. offset + 1) offset)
             (attribute_offset wasteData src offset files)
      else files)"
  by pat_completeness auto
termination
  by (relation "measure (\<lambda>(wasteData, src, l, i, offset, files). nat (the l + 1 - i))") auto

declare attribute_loop.simps(2) [simp del]

text \<open>
  \<open>(mapping.lastColumnNumber - 1) || lineLengths[mapping.lineNumber]\<close>: the left operand
  is falsy when it is \<open>NaN\<close> (no \<open>lastColumnNumber\<close>) and when it is 0.
\<close>

definition lastColumnOfMapping :: "int list \<Rightarrow> sourceMapEntry \<Rightarrow> int option" where
  "lastColumnOfMapping lineLengths mapping =
     (case lastColumnNumber mapping of
        None \<Rightarrow> js_nth lineLengths (lineNumber mapping)
      | Some l \<Rightarrow> if l - 1 = 0 then js_nth lineLengths (lineNumber mapping) else Some (l - 1))"

text \<open>\<open>let offset = lineOffsets[mapping.lineNumber]; offset += mapping.columnNumber\<close>\<close>

definition start_offset :: "int list \<Rightarrow> sourceMapEntry \<Rightarrow> int option" where
  "start_offset lineOffsets mapping =
     map_option (\<lambda>offset. offset + columnNumber mapping) (js_nth lineOffsets (lineNumber mapping))"

definition attribute_mapping ::
  "wasteData list \<Rightarrow> int list \<Rightarrow> int list \<Rightarrow> sourceMapEntry \<Rightarrow> jsobject \<Rightarrow> jsobject" where
  "attribute_mapping wasteData lineLengths lineOffsets mapping files =
     attribute_loop wasteData (sourceURL mapping) (lastColumnOfMapping lineLengths mapping)
       (columnNumber mapping) (start_offset lineOffsets mapping) files"

definition lineLengths_of :: "string \<Rightarrow> int list" where
  "lineLengths_of text = map (\<lambda>l. int (length l)) (split_newline text)"

text \<open>The object \<open>files\<close> after the loop over the mappings.\<close>

definition collect_files :: "wasteData list \<Rightarrow> string \<Rightarrow> sourceMapEntry list \<Rightarrow> jsobject" where
  "collect_files wasteData text mappings =
     (let lineLengths = lineLengths_of text;
          lineOffsets = lineOffsets_from 0 lineLengths
      in fold (attribute_mapping wasteData lineLengths lineOffsets) mappings [])"

text \<open>
  \<open>Object.entries(files).sort(([_, u1], [__, u2]) => u2 - u1)\<close>. The comparator
  subtracts two numbers; with a string operand the difference is \<open>NaN\<close> (\<open>None\<close>),
  which the sort treats as 0. The sort is stable, so that the result is the one of an
  insertion sort as long as the comparator is consistent, that is, as long as all the
  values are numbers; for an inconsistent comparator the order is left to the engine.
\<close>

definition compare_unused :: "jsval \<Rightarrow> jsval \<Rightarrow> int option" where
  "compare_unused unusedBytes1 unusedBytes2 =
     (case (unusedBytes1, unusedBytes2) of
        (Num u1, Num u2) \<Rightarrow> Some (u2 - u1)
      | _ \<Rightarrow> None)"

definition sorts_before :: "string \<times> jsval \<Rightarrow> string \<times> jsval \<Rightarrow> bool" where
  "sorts_before x y = (case compare_unused (snd x) (snd y) of None \<Rightarrow> True | Some c \<Rightarrow> c \<le> 0)"

fun insert_sorted :: "string \<times> jsval \<Rightarrow> (string \<times> jsval) list \<Rightarrow> (string \<times> jsval) list" where
  "insert_sorted x [] = [x]"
| "insert_sorted x (y # ys) = (if sorts_before x y then x # y # ys else y # insert_sorted x ys)"

definition dataSorted :: "jsobject \<Rightarrow> (string \<times> jsval) list" where
  "dataSorted files = foldr insert_sorted files []"

text \<open>\<open>for (const [key, unusedBytes] of dataSorted) bundleData[key] = unusedBytes\<close>\<close>

definition bundleData :: "(string \<times> jsval) list \<Rightarrow> jsobject" where
  "bundleData entries = fold (\<lambda>(key, unusedBytes) ob. obj_set ob key unusedBytes) entries []"

text \<open>\<open>if (!bundle.script.content) return;\<close> leaves on a missing and on an empty text.\<close>

definition createSourceWastedBytes ::
  "wasteData list \<Rightarrow> artifactBundle \<Rightarrow> lengths \<Rightarrow> jsobject option" where
  "createSourceWastedBytes wasteData bundle lengths =
     (case script_content bundle of
        None \<Rightarrow> None
      | Some text \<Rightarrow>
          if text = [] then None
          else Some (bundleData (dataSorted (collect_files wasteData text (map_mappings bundle)))))"

section \<open>compute_ (named compute_summary here)\<close>

text \<open>
  The settled state of the promise that the \<open>async\<close> function returns. The source has
  no \<open>throw\<close>; what rejects the promise is a \<open>RangeError\<close> of the engine, inside
  \<open>computeWaste\<close>: when \<open>Math.max(maximumEndOffset, ...ranges)\<close> gets more arguments
  than a call of the engine can take, or when \<open>new Uint8Array(maximumEndOffset)\<close> asks
  for more elements than the engine supports. Both limits depend on the engine and are
  the fields of the parameter \<open>engine\<close>.
\<close>

datatype error = RangeError

datatype 'a promise = Fulfilled 'a | Rejected error

record engine =
  maxArguments :: int
  maxTypedArrayLength :: int

definition engine_completes :: "engine \<Rightarrow> scriptCoverage \<Rightarrow> bool" where
  "engine_completes eng scriptCoverage =
     (list_all (\<lambda>func. 1 + int (length (ranges func)) \<le> maxArguments eng)
        (functions_cov scriptCoverage)
      \<and> maximumEndOffset scriptCoverage \<le> maxTypedArrayLength eng)"

record computeInput =
  networkRecord :: networkRecord
  scriptCoverages :: "scriptCoverage list"
  bundle_opt :: "artifactBundle option"

definition compute_summary ::
  "engine \<Rightarrow> (networkRecord \<Rightarrow> int \<Rightarrow> string \<Rightarrow> rat) \<Rightarrow> computeInput \<Rightarrow> summary promise" where
  "compute_summary eng estimateTransferSize data =
     (if \<not> list_all (engine_completes eng) (scriptCoverages data) then Rejected RangeError
      else
        let wasteData = map computeWaste (scriptCoverages data);
            lengths = determineLengths estimateTransferSize wasteData (networkRecord data);
            item = mergeWaste wasteData (url (networkRecord data)) lengths
        in case bundle_opt data of
             None \<Rightarrow> Fulfilled item
           | Some b \<Rightarrow>
               Fulfilled
                 (item\<lparr>sourcesWastedBytes :=
                    Present (createSourceWastedBytes wasteData b lengths)\<rparr>))"

section \<open>Example inputs\<close>

text \<open>
  One function with a used range \<open>[0, 6)\<close> and an unused range \<open>[2, 4)\<close> nested in it,
  and a second function with a used range \<open>[4, 6)\<close>.
\<close>

abbreviation example_coverage :: scriptCoverage where
  "example_coverage \<equiv>
     \<lparr>functions_cov =
        [\<lparr>ranges = [\<lparr>startOffset = 0, endOffset = 6, count = 1\<rparr>,
                    \<lparr>startOffset = 2, endOffset = 4, count = 0\<rparr>]\<rparr>,
         \<lparr>ranges = [\<lparr>startOffset = 4, endOffset = 6, count = 3\<rparr>]\<rparr>]\<rparr>"

text \<open>
  Two executions of one script of 100 bytes: in \<open>execution_A\<close> nothing ran, in
  \<open>execution_B\<close> everything ran five times.
\<close>

abbreviation execution_A :: scriptCoverage where
  "execution_A \<equiv>
     \<lparr>functions_cov = [\<lparr>ranges = [\<lparr>startOffset = 0, endOffset = 100, count = 0\<rparr>]\<rparr>]\<rparr>"

abbreviation execution_B :: scriptCoverage where
  "execution_B \<equiv>
     \<lparr>functions_cov = [\<lparr>ranges = [\<lparr>startOffset = 0, endOffset = 100, count = 5\<rparr>]\<rparr>]\<rparr>"

text \<open>A text of 10 bytes of which the first 7 never ran.\<close>

abbreviation seven_of_ten :: scriptCoverage where
  "seven_of_ten \<equiv>
     \<lparr>functions_cov = [\<lparr>ranges = [\<lparr>startOffset = 0, endOffset = 10, count = 1\<rparr>,
                                   \<lparr>startOffset = 0, endOffset = 7, count = 0\<rparr>]\<rparr>]\<rparr>"



text \<open>An engine for the examples.\<close>

abbreviation example_engine :: engine where
  "example_engine \<equiv> \<lparr>maxArguments = 65535, maxTypedArrayLength = 4294967295\<rparr>"

text \<open>An estimator for the examples: nothing is compressed, the transfer size is the
  content length.\<close>

definition identity_estimate :: "networkRecord \<Rightarrow> int \<Rightarrow> string \<Rightarrow> rat" where
  "identity_estimate nr bytes resourceType = rat_of_int bytes"

text \<open>
  A bundle of two lines, \<open>abc\<close> and \<open>defg\<close>. The first line comes from \<open>a.js\<close>; of
  the second line, the columns 0 and 1 come from \<open>b.js\<close> and the rest from \<open>a.js\<close>.
\<close>

abbreviation example_bundle :: artifactBundle where
  "example_bundle \<equiv>
     \<lparr>script_content = Some (''abc'' @ [CHR 0x0A] @ ''defg''),
      map_mappings =
        [\<lparr>lineNumber = 0, columnNumber = 0, lastColumnNumber = None, sourceURL = ''a.js''\<rparr>,
         \<lparr>lineNumber = 1, columnNumber = 0, lastColumnNumber = Some 2, sourceURL = ''b.js''\<rparr>,
         \<lparr>lineNumber = 1, columnNumber = 2, lastColumnNumber = None, sourceURL = ''a.js''\<rparr>]\<rparr>"

text \<open>The text \<open>abcdef\<close>, never run.\<close>

abbreviation unused_six :: scriptCoverage where
  "unused_six \<equiv>
     \<lparr>functions_cov = [\<lparr>ranges = [\<lparr>startOffset = 0, endOffset = 6, count = 0\<rparr>]\<rparr>]\<rparr>"

text \<open>
  A bundle of the one line \<open>abcdef\<close>: column 0 comes from \<open>a.js\<close> and the columns from
  1 on from \<open>b.js\<close>, so that the \<open>lastColumnNumber\<close> of the first mapping is 1.
\<close>

abbreviation bundle_column_one :: artifactBundle where
  "bundle_column_one \<equiv>
     \<lparr>script_content = Some ''abcdef'',
      map_mappings =
        [\<lparr>lineNumber = 0, columnNumber = 0, lastColumnNumber = Some 1, sourceURL = ''a.js''\<rparr>,
         \<lparr>lineNumber = 0, columnNumber = 1, lastColumnNumber = None, sourceURL = ''b.js''\<rparr>]\<rparr>"

text \<open>
  A bundle of the one line \<open>abcdefgh\<close>, never run, whose source map names its two
  sources \<open>2\<close> (columns 0 to 4) and \<open>1\<close> (columns 5 to 7).
\<close>

abbreviation unused_eight :: scriptCoverage where
  "unused_eight \<equiv>
     \<lparr>functions_cov = [\<lparr>ranges = [\<lparr>startOffset = 0, endOffset = 8, count = 0\<rparr>]\<rparr>]\<rparr>"

abbreviation bundle_numeric_sources :: artifactBundle where
  "bundle_numeric_sources \<equiv>
     \<lparr>script_content = Some ''abcdefgh'',
      map_mappings =
        [\<lparr>lineNumber = 0, columnNumber = 0, lastColumnNumber = Some 5, sourceURL = ''2''\<rparr>,
         \<lparr>lineNumber = 0, columnNumber = 5, lastColumnNumber = None, sourceURL = ''1''\<rparr>]\<rparr>"


abbreviation lengths_zero :: lengths where
  "lengths_zero \<equiv> \<lparr>content = 0, unused = 0, transfer = 0\<rparr>"

text \<open>A bundle of the one line \<open>abc\<close> whose source map names its source \<open>__proto__\<close>.\<close>

abbreviation bundle_proto_source :: artifactBundle where
  "bundle_proto_source \<equiv>
     \<lparr>script_content = Some ''abc'',
      map_mappings =
        [\<lparr>lineNumber = 0, columnNumber = 0, lastColumnNumber = None,
          sourceURL = ''__proto__''\<rparr>]\<rparr>"

text \<open>
  Vocabulary of the statements about invalid ranges: the coverage with every negative
  \<open>startOffset\<close> replaced by 0.
\<close>

definition clamp_start :: "coverageRange \<Rightarrow> coverageRange" where
  "clamp_start r = r\<lparr>startOffset := max 0 (startOffset r)\<rparr>"


text \<open>Vocabulary of the statements about the attribution.\<close>

definition ordinary_name :: "string \<Rightarrow> bool" where
  "ordinary_name k = (k \<notin> set prototype_members)"

definition counts_of :: "jsobject \<Rightarrow> string \<Rightarrow> int" where
  "counts_of ob k = (case map_of ob k of Some (Num n) \<Rightarrow> n | _ \<Rightarrow> 0)"

definition num_of :: "jsval \<Rightarrow> int" where
  "num_of v = (case v of Num n \<Rightarrow> n | Text name n \<Rightarrow> 0)"

definition is_count :: "jsval \<Rightarrow> bool" where
  "is_count v = (case v of Num n \<Rightarrow> 0 < n | Text name n \<Rightarrow> False)"

definition positive_counts :: "jsobject \<Rightarrow> bool" where
  "positive_counts ob = list_all (\<lambda>(k, v). is_count v) ob"

text \<open>How often the inner loop runs for a mapping: the columns from \<open>columnNumber\<close> to
  \<open>lastColumnOfMapping\<close>, both included.\<close>

definition covered :: "int list \<Rightarrow> sourceMapEntry \<Rightarrow> int" where
  "covered lineLengths mapping =
     (case lastColumnOfMapping lineLengths mapping of
        None \<Rightarrow> 0
      | Some l \<Rightarrow> if columnNumber mapping \<le> l then l + 1 - columnNumber mapping else 0)"

definition attributed :: "string \<Rightarrow> sourceMapEntry list \<Rightarrow> string \<Rightarrow> int" where
  "attributed text mappings src =
     sum_list (map (covered (lineLengths_of text)) (filter (\<lambda>m. sourceURL m = src) mappings))"

section \<open>Properties of computeWaste\<close>

lemma fold_max_Max: "fold max xs (m::int) = Max (insert m (set xs))"
proof -
  have "fold max xs m = Max (set (m # xs))"
    by (simp only: Max.set_eq_fold)
  then show ?thesis by simp
qed

lemma fold_functions_Max:
  "fold (\<lambda>func m. fold max (map endOffset (ranges func)) m) fs (m::int) =
     Max (insert m (endOffset ` set (concat (map ranges fs))))"
proof (induction fs arbitrary: m)
  case Nil
  then show ?case by simp
next
  case (Cons f fs)
  let ?A = "endOffset ` set (ranges f)"
  let ?B = "endOffset ` set (concat (map ranges fs))"
  have "Max (insert (Max (insert m ?A)) ?B) = Max (insert m ?A \<union> ?B)"
  proof (cases "?B = {}")
    case True
    then show ?thesis by simp
  next
    case False
    have "Max (insert m ?A \<union> ?B) = max (Max (insert m ?A)) (Max ?B)"
      using False by (intro Max_Un) simp_all
    moreover have "Max (insert (Max (insert m ?A)) ?B) = max (Max (insert m ?A)) (Max ?B)"
      using False by (intro Max_insert) simp_all
    ultimately show ?thesis by simp
  qed
  moreover have "fold (\<lambda>func m. fold max (map endOffset (ranges func)) m) (f # fs) m =
      Max (insert (fold max (map endOffset (ranges f)) m) ?B)"
    by (simp only: fold_Cons comp_apply Cons.IH)
  moreover have "fold max (map endOffset (ranges f)) m = Max (insert m ?A)"
    by (simp only: fold_max_Max set_map)
  ultimately show ?case
    by (simp add: image_Un)
qed

lemma maximumEndOffset_Max:
  "maximumEndOffset sc = Max (insert 0 (endOffset ` set (all_ranges sc)))"
  by (simp add: maximumEndOffset_def all_ranges_def fold_functions_Max)

lemma maximumEndOffset_nonneg: "0 \<le> maximumEndOffset sc"
  by (simp add: maximumEndOffset_Max)

lemma length_typed_set [simp]: "length (typed_set arr i v) = length arr"
  by (simp add: typed_set_def)

lemma length_mark_loop [simp]: "length (mark_loop i e arr) = length arr"
  by (induction i e arr rule: mark_loop.induct) (subst mark_loop.simps, simp)

lemma nth_mark_loop:
  "k < length arr \<Longrightarrow>
   mark_loop i e arr ! k = (if i \<le> int k \<and> int k < e then 1 else arr ! k)"
proof (induction i e arr rule: mark_loop.induct)
  case (1 i e arr)
  show ?case
  proof (cases "i < e")
    case True
    have "mark_loop i e arr ! k = mark_loop (i + 1) e (typed_set arr i 1) ! k"
      using True by (subst mark_loop.simps) simp
    also have "\<dots> = (if i + 1 \<le> int k \<and> int k < e then 1 else typed_set arr i 1 ! k)"
      using "1.IH" [OF True] "1.prems" by simp
    also have "\<dots> = (if i \<le> int k \<and> int k < e then 1 else arr ! k)"
    proof (cases "int k = i")
      case True
      then have "nat i = k" by simp
      with True \<open>i < e\<close> "1.prems" show ?thesis
        by (simp add: typed_set_def)
    next
      case False
      have "typed_set arr i 1 ! k = arr ! k"
      proof (cases "0 \<le> i")
        case True
        with False have "nat i \<noteq> k" by auto
        then show ?thesis by (simp add: typed_set_def)
      next
        case False
        then show ?thesis by (simp add: typed_set_def)
      qed
      with False show ?thesis by auto
    qed
    finally show ?thesis .
  next
    case False
    then show ?thesis by (subst mark_loop.simps) auto
  qed
qed

lemma length_mark_range [simp]: "length (mark_range r arr) = length arr"
  by (simp add: mark_range_def)

lemma length_fold_mark_range [simp]: "length (fold mark_range rs arr) = length arr"
  by (induction rs arbitrary: arr) simp_all

lemma length_fold_mark_function [simp]: "length (fold mark_function fs arr) = length arr"
  by (induction fs arbitrary: arr) (simp_all add: mark_function_def)

lemma nth_mark_range:
  "k < length arr \<Longrightarrow>
   mark_range r arr ! k =
     (if count r = 0 \<and> startOffset r \<le> int k \<and> int k < endOffset r then 1 else arr ! k)"
  by (simp add: mark_range_def nth_mark_loop)

lemma in_unused_range_Cons:
  "in_unused_range (r # rs) k \<longleftrightarrow>
     (count r = 0 \<and> startOffset r \<le> k \<and> k < endOffset r) \<or> in_unused_range rs k"
  by (simp add: in_unused_range_def)

lemma in_unused_range_append:
  "in_unused_range (rs @ rs') k \<longleftrightarrow> in_unused_range rs k \<or> in_unused_range rs' k"
  by (auto simp: in_unused_range_def list_ex_iff)

lemma nth_fold_mark_range:
  "k < length arr \<Longrightarrow>
   fold mark_range rs arr ! k = (if in_unused_range rs (int k) then 1 else arr ! k)"
proof (induction rs arbitrary: arr)
  case Nil
  then show ?case by (simp add: in_unused_range_def)
next
  case (Cons r rs)
  have "fold mark_range (r # rs) arr ! k = fold mark_range rs (mark_range r arr) ! k"
    by simp
  also have "\<dots> = (if in_unused_range rs (int k) then 1 else mark_range r arr ! k)"
    using Cons.prems by (intro Cons.IH) simp
  also have "\<dots> = (if in_unused_range (r # rs) (int k) then 1 else arr ! k)"
    using Cons.prems by (simp add: nth_mark_range in_unused_range_Cons)
  finally show ?case .
qed

lemma nth_fold_mark_function:
  "k < length arr \<Longrightarrow>
   fold mark_function fs arr ! k =
     (if in_unused_range (concat (map ranges fs)) (int k) then 1 else arr ! k)"
proof (induction fs arbitrary: arr)
  case Nil
  then show ?case by (simp add: in_unused_range_def)
next
  case (Cons f fs)
  have "fold mark_function (f # fs) arr ! k = fold mark_function fs (mark_function f arr) ! k"
    by simp
  also have "\<dots> = (if in_unused_range (concat (map ranges fs)) (int k) then 1
                    else mark_function f arr ! k)"
    using Cons.prems by (intro Cons.IH) (simp add: mark_function_def)
  also have "\<dots> = (if in_unused_range (concat (map ranges (f # fs))) (int k) then 1 else arr ! k)"
    using Cons.prems
    by (simp add: mark_function_def nth_fold_mark_range in_unused_range_append)
  finally show ?case .
qed

lemma length_computeWaste:
  "length (unusedByIndex (computeWaste sc)) = nat (maximumEndOffset sc)"
  by (simp add: computeWaste_def Let_def)

lemma nth_computeWaste:
  assumes "k < length (unusedByIndex (computeWaste sc))"
  shows "unusedByIndex (computeWaste sc) ! k =
           (if in_unused_range (all_ranges sc) (int k) then 1 else 0)"
proof -
  from assms have k: "k < nat (maximumEndOffset sc)"
    by (simp add: length_computeWaste)
  then have "fold mark_function (functions_cov sc) (replicate (nat (maximumEndOffset sc)) 0) ! k =
      (if in_unused_range (all_ranges sc) (int k) then 1 else 0)"
    by (simp add: nth_fold_mark_function all_ranges_def)
  then show ?thesis
    by (simp add: computeWaste_def Let_def)
qed

lemma bits_computeWaste:
  "x \<in> set (unusedByIndex (computeWaste sc)) \<Longrightarrow> x = 0 \<or> x = 1"
  by (auto simp: in_set_conv_nth nth_computeWaste)

lemma fold_add_bits:
  "(\<And>x. x \<in> set arr \<Longrightarrow> x = 0 \<or> x = (1 :: 8 word)) \<Longrightarrow>
   fold (\<lambda>x unused. unused + uint x) arr a = a + count_unused arr"
proof (induction arr arbitrary: a)
  case Nil
  then show ?case by (simp add: count_unused_def)
next
  case (Cons x arr)
  have x: "x = 0 \<or> x = 1" using Cons.prems by simp
  have "fold (\<lambda>x unused. unused + uint x) (x # arr) a =
        fold (\<lambda>x unused. unused + uint x) arr (a + uint x)"
    by simp
  also have "\<dots> = a + uint x + count_unused arr"
    using Cons.prems by (intro Cons.IH) simp
  also have "\<dots> = a + count_unused (x # arr)"
    using x by (auto simp: count_unused_def)
  finally show ?case .
qed

lemma unusedLength_computeWaste:
  "unusedLength (computeWaste sc) = count_unused (unusedByIndex (computeWaste sc))"
proof -
  have "sum_bytes (unusedByIndex (computeWaste sc)) =
        0 + count_unused (unusedByIndex (computeWaste sc))"
    unfolding sum_bytes_def by (rule fold_add_bits) (rule bits_computeWaste)
  then show ?thesis
    by (simp add: computeWaste_def Let_def)
qed

lemma contentLength_computeWaste: "contentLength (computeWaste sc) = maximumEndOffset sc"
  by (simp add: computeWaste_def Let_def)

lemma count_unused_le_length: "count_unused arr \<le> int (length arr)"
  by (simp add: count_unused_def)

lemma count_unused_nonneg: "0 \<le> count_unused arr"
  by (simp add: count_unused_def)

text \<open>
  Claim C1. For every coverage, \<open>computeWaste\<close> returns a \<open>contentLength\<close> that is the
  maximum of 0 and every \<open>endOffset\<close>: 0 when there is no range, and the maximum
  \<open>endOffset\<close> as soon as one of them is not negative (offsets are byte positions). The
  bitmap has that length; the byte at an offset is 1 exactly when the offset lies in
  \<open>[startOffset, endOffset)\<close> of some range whose count is 0, and 0 otherwise, so a range
  with a nonzero count changes nothing, whatever the order of the ranges. \<open>unusedLength\<close>
  is the number of bytes that are 1. With no range, \<open>contentLength\<close> is 0 and the bitmap is
  empty.
\<close>

theorem computeWaste_spec:
  "contentLength (computeWaste sc) = Max (insert 0 (endOffset ` set (all_ranges sc)))
   \<and> ((\<exists>r \<in> set (all_ranges sc). 0 \<le> endOffset r) \<longrightarrow>
        contentLength (computeWaste sc) = Max (endOffset ` set (all_ranges sc)))
   \<and> int (length (unusedByIndex (computeWaste sc))) = contentLength (computeWaste sc)
   \<and> (\<forall>k < length (unusedByIndex (computeWaste sc)).
        unusedByIndex (computeWaste sc) ! k =
          (if in_unused_range (all_ranges sc) (int k) then 1 else 0))
   \<and> unusedLength (computeWaste sc) = count_unused (unusedByIndex (computeWaste sc))
   \<and> (all_ranges sc = [] \<longrightarrow>
        contentLength (computeWaste sc) = 0 \<and> unusedByIndex (computeWaste sc) = [])"
proof -
  let ?E = "endOffset ` set (all_ranges sc)"
  have max0: "contentLength (computeWaste sc) = Max (insert 0 ?E)"
    by (simp add: contentLength_computeWaste maximumEndOffset_Max)
  have maxE: "contentLength (computeWaste sc) = Max ?E"
    if "\<exists>r \<in> set (all_ranges sc). 0 \<le> endOffset r"
  proof -
    from that obtain r where r: "r \<in> set (all_ranges sc)" "0 \<le> endOffset r"
      by blast
    then have "endOffset r \<le> Max ?E" by simp
    with r have "0 \<le> Max ?E" by linarith
    moreover from r have "?E \<noteq> {}" by auto
    ultimately have "Max (insert 0 ?E) = Max ?E"
      by (simp add: max_def)
    with max0 show ?thesis by simp
  qed
  have len: "int (length (unusedByIndex (computeWaste sc))) = contentLength (computeWaste sc)"
    using maximumEndOffset_nonneg [of sc]
    by (simp add: length_computeWaste contentLength_computeWaste)
  have empty: "contentLength (computeWaste sc) = 0 \<and> unusedByIndex (computeWaste sc) = []"
    if "all_ranges sc = []"
  proof -
    from that max0 have "contentLength (computeWaste sc) = 0" by simp
    with len show ?thesis by simp
  qed
  show ?thesis
    using max0 maxE len empty nth_computeWaste [of _ sc] unusedLength_computeWaste [of sc]
    by blast
qed

theorem computeWaste_spec_witness:
  "(\<exists>r \<in> set (all_ranges example_coverage). 0 \<le> endOffset r)
   \<and> contentLength (computeWaste example_coverage) = 6
   \<and> length (unusedByIndex (computeWaste example_coverage)) = 6
   \<and> unusedByIndex (computeWaste example_coverage) = [0, 0, 1, 1, 0, 0]
   \<and> unusedLength (computeWaste example_coverage) = 2"
proof -
  note spec = computeWaste_spec [of example_coverage]
  have h: "\<exists>r \<in> set (all_ranges example_coverage). 0 \<le> endOffset r"
    by (simp add: all_ranges_def)
  from spec h have "contentLength (computeWaste example_coverage) =
      Max (endOffset ` set (all_ranges example_coverage))"
    by blast
  also have "\<dots> = 6"
    by (simp add: all_ranges_def)
  finally have c: "contentLength (computeWaste example_coverage) = 6" .
  from spec c have l: "length (unusedByIndex (computeWaste example_coverage)) = 6"
    by simp
  have b: "unusedByIndex (computeWaste example_coverage) = [0, 0, 1, 1, 0, 0]"
    by code_simp
  from spec have "unusedLength (computeWaste example_coverage) =
      count_unused (unusedByIndex (computeWaste example_coverage))"
    by blast
  also have "\<dots> = 2"
    by (simp add: b count_unused_def)
  finally show ?thesis
    using h c l b by blast
qed

section \<open>Properties of the doubles\<close>

lemma pow2_closed: "pow2 k = (if 0 \<le> k then 2 ^ nat k else 1 / 2 ^ nat (- k))"
proof (induction k rule: pow2.induct)
  case (1 k)
  show ?case
  proof (cases "k < 0")
    case True
    then have "pow2 k = 1 / pow2 (- k)"
      by (subst pow2.simps) simp
    also have "pow2 (- k) = 2 ^ nat (- k)"
      using "1.IH"(1) [OF True] True by simp
    finally show ?thesis using True by simp
  next
    case False
    show ?thesis
    proof (cases "k = 0")
      case True
      then show ?thesis by (subst pow2.simps) simp
    next
      case nz: False
      with False have pos: "0 < k" by simp
      have h: "pow2 (k div 2) = 2 ^ nat (k div 2)"
        using "1.IH"(2) [OF False nz] pos by simp
      show ?thesis
      proof (cases "even k")
        case True
        then have "nat k = nat (k div 2) + nat (k div 2)"
          using pos by (auto elim!: evenE)
        moreover have "pow2 k = pow2 (k div 2) * pow2 (k div 2)"
          using True False nz by (subst pow2.simps) (simp add: Let_def)
        ultimately show ?thesis
          using pos by (simp add: h power_add)
      next
        case odd: False
        then have "nat k = Suc (nat (k div 2) + nat (k div 2))"
          using pos by (auto elim!: oddE)
        moreover have "pow2 k = 2 * (pow2 (k div 2) * pow2 (k div 2))"
          using odd False nz by (subst pow2.simps) (simp add: Let_def)
        ultimately show ?thesis
          using pos by (simp add: h power_add)
      qed
    qed
  qed
qed

lemma pow2_pos: "0 < pow2 k"
  by (simp add: pow2_closed)

lemma bit_length_nonneg: "0 \<le> bit_length n"
  by (induction n rule: bit_length.induct) (subst bit_length.simps, simp)

lemma bit_length_nonpos: "n \<le> 0 \<Longrightarrow> bit_length n = 0"
  by (subst bit_length.simps) simp

lemma bit_length_lower: "0 < n \<Longrightarrow> (2::int) ^ nat (bit_length n - 1) \<le> n"
proof (induction n rule: bit_length.induct)
  case (1 n)
  from "1.prems" have step: "bit_length n = 1 + bit_length (n div 2)"
    by (subst bit_length.simps) simp
  show ?case
  proof (cases "n div 2 = 0")
    case True
    then show ?thesis
      using "1.prems" by (simp add: step bit_length_nonpos)
  next
    case False
    with "1.prems" have pos: "0 < n div 2" by simp
    then have "1 \<le> bit_length (n div 2)"
      using bit_length_nonneg [of "n div 2 div 2"]
      by (subst bit_length.simps) simp
    then have "nat (bit_length (n div 2)) = Suc (nat (bit_length (n div 2) - 1))"
      by simp
    then have "(2::int) ^ nat (bit_length (n div 2)) = 2 * 2 ^ nat (bit_length (n div 2) - 1)"
      by simp
    also have "\<dots> \<le> 2 * (n div 2)"
      using "1.IH" pos "1.prems" by simp
    also have "\<dots> \<le> n"
      by simp
    finally show ?thesis
      by (simp add: step)
  qed
qed

lemma bit_length_le:
  assumes "m \<le> 2 ^ N"
  shows "bit_length m \<le> int N + 1"
proof (cases "0 < m")
  case True
  have "(2::int) ^ nat (bit_length m - 1) \<le> m"
    by (rule bit_length_lower [OF True])
  also have "m \<le> 2 ^ N" by fact
  finally have "nat (bit_length m - 1) \<le> N"
    by simp
  then show ?thesis by simp
next
  case False
  then show ?thesis by (simp add: bit_length_nonpos)
qed

lemma bit_length_upper: "n < 2 ^ nat (bit_length n)"
proof (induction n rule: bit_length.induct)
  case (1 n)
  show ?case
  proof (cases "n \<le> 0")
    case True
    then have "n < 1" by simp
    then show ?thesis by (simp add: bit_length_nonpos True)
  next
    case False
    then have step: "bit_length n = 1 + bit_length (n div 2)"
      by (subst bit_length.simps) simp
    have "nat (1 + bit_length (n div 2)) = Suc (nat (bit_length (n div 2)))"
      using bit_length_nonneg [of "n div 2"] by simp
    moreover have "n div 2 + 1 \<le> 2 ^ nat (bit_length (n div 2))"
      using "1.IH" [OF False] by simp
    moreover have "n < 2 * (n div 2 + 1)"
      by simp
    ultimately show ?thesis
      by (simp add: step)
  qed
qed

lemma bit_length_mono:
  assumes "a \<le> b"
  shows "bit_length a \<le> bit_length b"
proof (cases "0 < a")
  case True
  have "(2::int) ^ nat (bit_length a - 1) \<le> a"
    by (rule bit_length_lower [OF True])
  also have "a \<le> b" by fact
  also have "b < 2 ^ nat (bit_length b)"
    by (rule bit_length_upper)
  finally have "nat (bit_length a - 1) < nat (bit_length b)"
    by simp
  then show ?thesis by simp
next
  case False
  then show ?thesis
    by (simp add: bit_length_nonpos bit_length_nonneg)
qed

lemma round_half_even_nonneg: "0 \<le> y \<Longrightarrow> 0 \<le> round_half_even y"
  by (simp add: round_half_even_def Let_def)

lemma round_half_even_le:
  assumes "y \<le> of_int N"
  shows "round_half_even y \<le> N"
proof (cases "\<lfloor>y\<rfloor> < N")
  case True
  then show ?thesis
    by (simp add: round_half_even_def Let_def)
next
  case False
  moreover from assms have "\<lfloor>y\<rfloor> \<le> N"
    by (simp add: floor_le_iff)
  ultimately have f: "\<lfloor>y\<rfloor> = N" by simp
  with assms have "y - of_int \<lfloor>y\<rfloor> \<le> 0" by simp
  then have "y - of_int \<lfloor>y\<rfloor> < 1 / 2" by simp
  then show ?thesis
    by (simp add: round_half_even_def Let_def f)
qed

lemma floor_log2_unit:
  assumes "0 < x" and "x \<le> 1"
  shows "floor_log2 x \<le> 0"
proof -
  obtain n d where q: "quotient_of x = (n, d)"
    by (cases "quotient_of x")
  then have d: "0 < d" and x: "x = of_int n / of_int d"
    by (simp_all add: quotient_of_denom_pos quotient_of_div)
  from assms(2) d have "n \<le> d"
    by (simp add: x pos_divide_le_eq)
  then have "bit_length n - bit_length d \<le> 0"
    using bit_length_mono [of n d] by simp
  then show ?thesis
    by (simp add: floor_log2_def q Let_def)
qed

lemma round_double_unit:
  assumes "0 \<le> x" and "x \<le> 1"
  shows "\<exists>v. round_double x = Fin v \<and> 0 \<le> v \<and> v \<le> 1"
proof (cases "x = 0")
  case True
  then show ?thesis by (simp add: round_double_def)
next
  case False
  with assms(1) have pos: "0 < x" by simp
  define e where "e = max (floor_log2 x - 52) (- 1074)"
  define N where "N = (2::int) ^ nat (- e)"
  define m where "m = round_half_even (x / pow2 e)"
  have e: "e < 0"
    using floor_log2_unit [OF pos assms(2)] by (simp add: e_def)
  then have p: "pow2 e = 1 / of_int N"
    by (simp add: pow2_closed N_def)
  have Npos: "0 < N" by (simp add: N_def)
  have "x / pow2 e = x * of_int N"
    by (simp add: p)
  also have "\<dots> \<le> of_int N"
    using assms(2) Npos by (simp add: mult_le_cancel_right1)
  finally have mN: "m \<le> N"
    unfolding m_def by (rule round_half_even_le)
  have m0: "0 \<le> m"
    unfolding m_def using pos pow2_pos [of e] by (intro round_half_even_nonneg) simp
  have "bit_length m \<le> int (nat (- e)) + 1"
    using mN unfolding N_def by (rule bit_length_le)
  then have fin: "\<not> 1024 < bit_length m + e"
    using e by simp
  have v: "of_int m * pow2 e = rat_of_int m / rat_of_int N"
    by (simp add: p)
  have "0 \<le> rat_of_int m / rat_of_int N" and "rat_of_int m / rat_of_int N \<le> 1"
    using m0 mN Npos by (simp_all add: divide_le_eq_1)
  moreover have "round_double x = Fin (of_int m * pow2 e)"
    using False pos fin by (simp add: round_double_def Let_def e_def [symmetric] m_def [symmetric])
  ultimately show ?thesis
    by (simp add: v)
qed

lemma round_double_not_NaN: "round_double x \<noteq> NaN"
  by (simp add: round_double_def Let_def)

lemma js_or_zero_round_double: "js_or_zero (round_double x) = round_double x"
  using round_double_not_NaN [of x]
  by (cases "round_double x") (simp_all add: js_or_zero_def)

section \<open>Properties of the aggregation\<close>

lemma fold_usage:
  "fold (\<lambda>usage (unused, content). (unused + unusedLength usage, content + contentLength usage))
     wd (u, c) = (u + sum_list (map unusedLength wd), c + sum_list (map contentLength wd))"
  by (induction wd arbitrary: u c) simp_all

lemma sum_usage_sums:
  "sum_usage wd = (sum_list (map unusedLength wd), sum_list (map contentLength wd))"
  by (simp add: sum_usage_def fold_usage)

lemma sum_usage_wellformed:
  assumes "\<And>w. w \<in> set wd \<Longrightarrow> 0 \<le> unusedLength w \<and> unusedLength w \<le> contentLength w"
  shows "0 \<le> fst (sum_usage wd) \<and> fst (sum_usage wd) \<le> snd (sum_usage wd)"
proof -
  have "0 \<le> sum_list (map unusedLength wd)"
    using assms by (intro sum_list_nonneg) auto
  moreover have "sum_list (map unusedLength wd) \<le> sum_list (map contentLength wd)"
    using assms by (intro sum_list_mono) auto
  ultimately show ?thesis
    by (simp add: sum_usage_sums)
qed

lemma wastedRatio_cases:
  "wastedRatio wd =
     (let u = fst (sum_usage wd); c = snd (sum_usage wd)
      in if c = 0 then (if u = 0 then Fin 0 else if 0 < u then PosInf else NegInf)
         else round_double (rat_of_int u / rat_of_int c))"
  by (simp add: wastedRatio_def js_div_def js_or_zero_round_double Let_def split_beta)
    (simp add: js_or_zero_def)


lemma wastedRatio_wellformed:
  assumes "0 \<le> fst (sum_usage wd)" and "fst (sum_usage wd) \<le> snd (sum_usage wd)"
  shows "\<exists>r. wastedRatio wd = Fin r \<and> 0 \<le> r \<and> r \<le> 1"
proof (cases "snd (sum_usage wd) = 0")
  case True
  with assms have "fst (sum_usage wd) = 0" by simp
  with True show ?thesis by (simp add: wastedRatio_cases)
next
  case False
  with assms have pos: "0 < snd (sum_usage wd)" by simp
  have "rat_of_int (fst (sum_usage wd)) / rat_of_int (snd (sum_usage wd)) \<le> 1"
    using assms pos by (simp add: divide_le_eq_1)
  moreover have "0 \<le> rat_of_int (fst (sum_usage wd)) / rat_of_int (snd (sum_usage wd))"
    using assms pos by simp
  ultimately have "\<exists>v. round_double (rat_of_int (fst (sum_usage wd)) / rat_of_int (snd (sum_usage wd)))
      = Fin v \<and> 0 \<le> v \<and> v \<le> 1"
    by (intro round_double_unit)
  then show ?thesis
    using False by (simp add: wastedRatio_cases Let_def)
qed

lemma computeWaste_wellformed:
  "0 \<le> unusedLength (computeWaste sc) \<and> unusedLength (computeWaste sc) \<le> contentLength (computeWaste sc)"
proof -
  have "count_unused (unusedByIndex (computeWaste sc)) \<le> int (nat (maximumEndOffset sc))"
    using count_unused_le_length [of "unusedByIndex (computeWaste sc)"]
    by (simp add: length_computeWaste)
  then show ?thesis
    using maximumEndOffset_nonneg [of sc] count_unused_nonneg [of "unusedByIndex (computeWaste sc)"]
    by (simp add: unusedLength_computeWaste contentLength_computeWaste)
qed

text \<open>
  Claim C9. The \<open>WasteData\<close> of every coverage has \<open>0 \<le> unusedLength \<le> contentLength\<close>
  and a bitmap as long as \<open>contentLength\<close>. The sums that \<open>mergeWaste\<close> and
  \<open>determineLengths\<close> take over the results of \<open>computeWaste\<close> therefore have
  \<open>0 \<le> unused \<le> content\<close>, and the wasted ratio is a finite number between 0 and 1.
\<close>

theorem computeWaste_invariant:
  "0 \<le> unusedLength (computeWaste sc)
   \<and> unusedLength (computeWaste sc) \<le> contentLength (computeWaste sc)
   \<and> int (length (unusedByIndex (computeWaste sc))) = contentLength (computeWaste sc)
   \<and> 0 \<le> fst (sum_usage (map computeWaste scs))
   \<and> fst (sum_usage (map computeWaste scs)) \<le> snd (sum_usage (map computeWaste scs))
   \<and> unused (determineLengths est (map computeWaste scs) nr)
        \<le> content (determineLengths est (map computeWaste scs) nr)
   \<and> (\<exists>r. wastedRatio (map computeWaste scs) = Fin r \<and> 0 \<le> r \<and> r \<le> 1)"
proof -
  have len: "int (length (unusedByIndex (computeWaste sc))) = contentLength (computeWaste sc)"
    using maximumEndOffset_nonneg [of sc]
    by (simp add: length_computeWaste contentLength_computeWaste)
  have sums: "0 \<le> fst (sum_usage (map computeWaste scs)) \<and>
      fst (sum_usage (map computeWaste scs)) \<le> snd (sum_usage (map computeWaste scs))"
    by (rule sum_usage_wellformed) (auto simp: computeWaste_wellformed)
  then have ratio: "\<exists>r. wastedRatio (map computeWaste scs) = Fin r \<and> 0 \<le> r \<and> r \<le> 1"
    by (intro wastedRatio_wellformed) simp_all
  have "unused (determineLengths est (map computeWaste scs) nr)
        \<le> content (determineLengths est (map computeWaste scs) nr)"
    using sums by (simp add: determineLengths_def split_beta Let_def)
  with len sums ratio computeWaste_wellformed [of sc] show ?thesis
    by blast
qed

theorem computeWaste_invariant_witness:
  "unusedLength (computeWaste example_coverage) = 2
   \<and> contentLength (computeWaste example_coverage) = 6
   \<and> wastedRatio (map computeWaste [example_coverage, example_coverage])
       = Fin (6004799503160661 / 18014398509481984)
   \<and> (0::int) \<le> 2 \<and> (2::int) \<le> 6
   \<and> (0::rat) \<le> 6004799503160661 / 18014398509481984
   \<and> (6004799503160661::rat) / 18014398509481984 \<le> 1"
proof -
  note inv = computeWaste_invariant [of example_coverage "[example_coverage, example_coverage]"]
  have b: "unusedByIndex (computeWaste example_coverage) = [0, 0, 1, 1, 0, 0]"
    by code_simp
  have c: "contentLength (computeWaste example_coverage) = 6"
    using inv by (simp add: b)
  have u: "unusedLength (computeWaste example_coverage) = 2"
    by (simp add: unusedLength_computeWaste b count_unused_def)
  have "wastedRatio (map computeWaste [example_coverage, example_coverage])
      = Fin (6004799503160661 / 18014398509481984)"
    by code_simp
  with c u show ?thesis by simp
qed





section \<open>Properties of the objects\<close>

lemma ordinary_not_proto: "ordinary_name k \<Longrightarrow> k \<noteq> ''__proto__''"
  by (auto simp: ordinary_name_def prototype_members_def)

lemma keys_obj_update [simp]: "map fst (obj_update k v ob) = map fst ob"
  by (induction ob) auto

lemma map_of_obj_update:
  "map_of ob k \<noteq> None \<Longrightarrow> map_of (obj_update k v ob) = (map_of ob)(k \<mapsto> v)"
  by (induction ob) (auto simp: fun_upd_twist)

lemma map_of_obj_insert_index:
  "map_of ob k = None \<Longrightarrow> map_of (obj_insert_index n k v ob) = (map_of ob)(k \<mapsto> v)"
proof (induction ob)
  case Nil
  then show ?case by simp
next
  case (Cons p ob)
  obtain k' v' where p: "p = (k', v')" by (cases p)
  with Cons.prems have ne: "k' \<noteq> k" and rest: "map_of ob k = None"
    by (auto split: if_splits)
  show ?case
    using Cons.IH [OF rest] ne
    by (auto simp: p fun_upd_twist split: option.splits)
qed

lemma keys_obj_insert_index:
  "fst ` set (obj_insert_index n k v ob) = insert k (fst ` set ob)"
proof (induction ob)
  case Nil
  then show ?case by simp
next
  case (Cons p ob)
  obtain k' v' where p: "p = (k', v')" by (cases p)
  show ?case
  proof (cases "array_index k'")
    case None
    then show ?thesis by (simp add: p)
  next
    case (Some m)
    then show ?thesis
      using Cons.IH by (cases "m < n") (auto simp: p)
  qed
qed

lemma distinct_obj_insert_index:
  "distinct (map fst ob) \<Longrightarrow> k \<notin> fst ` set ob \<Longrightarrow>
   distinct (map fst (obj_insert_index n k v ob))"
proof (induction ob)
  case Nil
  then show ?case by simp
next
  case (Cons p ob)
  obtain k' v' where p: "p = (k', v')" by (cases p)
  from Cons.prems p have d: "distinct (map fst ob)" and nk: "k \<notin> fst ` set ob"
    and ne: "k' \<noteq> k" and nk': "k' \<notin> fst ` set ob"
    by auto
  have new: "k' \<notin> fst ` set (obj_insert_index n k v ob)"
    using ne nk' by (simp only: keys_obj_insert_index) simp
  show ?case
  proof (cases "array_index k'")
    case None
    then show ?thesis using d nk ne nk' by (simp add: p)
  next
    case (Some m)
    then show ?thesis
      using Cons.IH [OF d nk] new d nk ne nk' by (cases "m < n") (simp_all add: p)
  qed
qed

lemma map_of_None_iff: "map_of ob k = None \<longleftrightarrow> k \<notin> fst ` set ob"
  by (simp add: map_of_eq_None_iff)

lemma obj_set_proto [simp]: "obj_set ob ''__proto__'' v = ob"
  by (simp add: obj_set_def)

lemma map_of_obj_set:
  assumes "k \<noteq> ''__proto__''"
  shows "map_of (obj_set ob k v) = (map_of ob)(k \<mapsto> v)"
proof (cases "map_of ob k")
  case None
  then show ?thesis
    using assms
    by (cases "array_index k")
      (auto simp: obj_set_def map_of_obj_insert_index map_add_def fun_eq_iff split: option.splits)
next
  case (Some a)
  then show ?thesis
    using assms by (simp add: obj_set_def map_of_obj_update)
qed

lemma keys_obj_set: "fst ` set (obj_set ob k v) \<subseteq> insert k (fst ` set ob)"
proof (cases "k = ''__proto__''")
  case True
  then show ?thesis by auto
next
  case False
  show ?thesis
  proof (cases "map_of ob k")
    case None
    then show ?thesis
      using False by (cases "array_index k") (simp_all add: obj_set_def keys_obj_insert_index)
  next
    case (Some a)
    have "fst ` set (obj_update k v ob) = fst ` set ob"
      using keys_obj_update [of k v ob] by (metis set_map)
    then show ?thesis
      using Some False by (auto simp: obj_set_def)
  qed
qed

lemma distinct_obj_set:
  assumes "distinct (map fst ob)"
  shows "distinct (map fst (obj_set ob k v))"
proof (cases "k = ''__proto__''")
  case True
  with assms show ?thesis by simp
next
  case False
  show ?thesis
  proof (cases "map_of ob k")
    case None
    with assms False show ?thesis
      by (cases "array_index k")
        (simp_all add: obj_set_def distinct_obj_insert_index map_of_None_iff)
  next
    case (Some a)
    with assms False show ?thesis
      by (simp add: obj_set_def)
  qed
qed

lemma obj_set_plain:
  "array_index k = None \<Longrightarrow> k \<noteq> ''__proto__'' \<Longrightarrow> k \<notin> fst ` set ob \<Longrightarrow>
   obj_set ob k v = ob @ [(k, v)]"
  using map_of_None_iff [of ob k] by (simp add: obj_set_def)

lemma set_obj_update: "set (obj_update k v ob) \<subseteq> insert (k, v) (set ob)"
proof (induction ob)
  case Nil
  then show ?case by simp
next
  case (Cons p ob)
  obtain k' v' where p: "p = (k', v')" by (cases p)
  show ?case
    using Cons.IH by (cases "k' = k") (auto simp: p)
qed

lemma set_obj_insert_index: "set (obj_insert_index n k v ob) = insert (k, v) (set ob)"
proof (induction ob)
  case Nil
  then show ?case by simp
next
  case (Cons p ob)
  obtain k' v' where p: "p = (k', v')" by (cases p)
  show ?case
  proof (cases "array_index k'")
    case None
    then show ?thesis by (simp add: p)
  next
    case (Some m)
    then show ?thesis
      using Cons.IH by (cases "m < n") (auto simp: p)
  qed
qed

lemma set_obj_set: "set (obj_set ob k v) \<subseteq> insert (k, v) (set ob)"
proof (cases "k = ''__proto__''")
  case True
  then show ?thesis by auto
next
  case False
  show ?thesis
  proof (cases "map_of ob k")
    case None
    then show ?thesis
      using False by (cases "array_index k") (auto simp: obj_set_def set_obj_insert_index)
  next
    case (Some a)
    then show ?thesis
      using False set_obj_update [of k v ob] by (simp add: obj_set_def)
  qed
qed

lemma positive_counts_value:
  assumes "positive_counts ob" and "map_of ob k = Some v"
  shows "\<exists>n. v = Num n \<and> 0 < n"
proof -
  from assms(2) have "(k, v) \<in> set ob" by (rule map_of_SomeD)
  with assms(1) have "is_count v"
    by (auto simp: positive_counts_def list_all_iff)
  then show ?thesis
    by (cases v) (simp_all add: is_count_def)
qed

lemma counts_of_nonneg: "positive_counts ob \<Longrightarrow> 0 \<le> counts_of ob k"
proof (cases "map_of ob k")
  case None
  then show ?thesis by (simp add: counts_of_def)
next
  case (Some v)
  assume "positive_counts ob"
  from positive_counts_value [OF this Some] Some show ?thesis
    by (auto simp: counts_of_def)
qed

lemma map_of_positive:
  assumes "positive_counts ob"
  shows "map_of ob k = (if counts_of ob k = 0 then None else Some (Num (counts_of ob k)))"
proof (cases "map_of ob k")
  case None
  then show ?thesis by (simp add: counts_of_def)
next
  case (Some v)
  from positive_counts_value [OF assms Some] Some show ?thesis
    by (auto simp: counts_of_def)
qed

text \<open>For a key that names no member of \<open>Object.prototype\<close>, in an object of counts,
  the increment is the count plus one.\<close>

lemma increment_ordinary:
  assumes "ordinary_name k" and "positive_counts files"
  shows "increment files k = obj_set files k (Num (counts_of files k + 1))"
proof (cases "map_of files k")
  case None
  with assms(1) show ?thesis
    by (simp add: increment_def counts_of_def ordinary_name_def)
next
  case (Some v)
  from positive_counts_value [OF assms(2) Some] Some show ?thesis
    by (auto simp: increment_def counts_of_def)
qed

lemma keys_increment: "fst ` set (increment files k) \<subseteq> insert k (fst ` set files)"
  unfolding increment_def by (rule keys_obj_set)

lemma distinct_increment:
  "distinct (map fst files) \<Longrightarrow> distinct (map fst (increment files k))"
  unfolding increment_def by (rule distinct_obj_set)

lemma map_of_increment:
  assumes "ordinary_name k" and "positive_counts files"
  shows "map_of (increment files k) = (map_of files)(k \<mapsto> Num (counts_of files k + 1))"
  using assms by (simp add: increment_ordinary map_of_obj_set ordinary_not_proto)

lemma counts_of_increment:
  assumes "ordinary_name k" and "positive_counts files"
  shows "counts_of (increment files k) k' = counts_of files k' + (if k' = k then 1 else 0)"
  by (simp add: counts_of_def [of "increment files k"] map_of_increment [OF assms])
    (simp add: counts_of_def)

lemma positive_counts_increment:
  assumes "ordinary_name k" and "positive_counts files"
  shows "positive_counts (increment files k)"
proof -
  have "is_count (Num (counts_of files k + 1))"
    using counts_of_nonneg [OF assms(2), of k] by (simp add: is_count_def)
  then show ?thesis
    using assms(2) set_obj_set [of files k "Num (counts_of files k + 1)"]
    by (auto simp: increment_ordinary [OF assms] positive_counts_def list_all_iff)
qed

text \<open>The key \<open>__proto__\<close> never becomes an own property.\<close>

lemma increment_proto: "increment files ''__proto__'' = files"
  by (simp add: increment_def)

section \<open>Properties of the attribution\<close>

lemma js_nth_in_set: "js_nth xs i = Some v \<Longrightarrow> v \<in> set xs"
  by (auto simp: js_nth_def split: if_splits)

lemma js_nth_beyond: "int (length xs) \<le> i \<Longrightarrow> js_nth xs i = None"
  by (simp add: js_nth_def)

lemma read_unused_in_set: "read_unused d off = Some v \<Longrightarrow> v \<in> set (unusedByIndex d)"
  by (auto simp: read_unused_def dest: js_nth_in_set split: option.splits)

lemma never_unused:
  "d \<in> set wd \<Longrightarrow> 1 \<notin> set (unusedByIndex d) \<Longrightarrow> \<not> unused_in_every wd off"
  by (auto simp: unused_in_every_def list_all_iff dest: read_unused_in_set)

lemma attribute_loop_unchanged:
  "(\<And>off. \<not> unused_in_every wd off) \<Longrightarrow> attribute_loop wd src lastCol i off files = files"
proof (induction wd src lastCol i off files rule: attribute_loop.induct)
  case (1 wd src i off files)
  then show ?case by simp
next
  case (2 wd src l i off files)
  show ?case
  proof (cases "i \<le> l")
    case True
    have "attribute_loop wd src (Some l) i off files =
        attribute_loop wd src (Some l) (i + 1) (map_option (\<lambda>offset. offset + 1) off)
          (attribute_offset wd src off files)"
      using True by (subst attribute_loop.simps) simp
    also have "\<dots> = attribute_offset wd src off files"
      using True "2.prems" by (intro "2.IH")
    also have "\<dots> = files"
      using "2.prems" by (simp add: attribute_offset_def)
    finally show ?thesis .
  next
    case False
    then show ?thesis by (subst attribute_loop.simps) simp
  qed
qed

lemma fold_attribute_mapping_unchanged:
  "(\<And>off. \<not> unused_in_every wd off) \<Longrightarrow> fold (attribute_mapping wd ll lo) ms files = files"
  by (induction ms arbitrary: files) (simp_all add: attribute_mapping_def attribute_loop_unchanged)

lemma createSourceWastedBytes_nothing:
  assumes "\<And>off. \<not> unused_in_every wd off"
  shows "createSourceWastedBytes wd b l =
           (if script_content b = None \<or> script_content b = Some [] then None else Some [])"
  using assms
  by (auto simp: createSourceWastedBytes_def collect_files_def Let_def dataSorted_def
      bundleData_def fold_attribute_mapping_unchanged split: option.splits)

lemma computeWaste_single_range:
  assumes "0 \<le> n"
  shows "computeWaste \<lparr>functions_cov = [\<lparr>ranges = [\<lparr>startOffset = 0, endOffset = n, count = c\<rparr>]\<rparr>]\<rparr> =
     \<lparr>unusedByIndex = replicate (nat n) (if c = 0 then 1 else 0),
      unusedLength = (if c = 0 then n else 0), contentLength = n\<rparr>"
proof -
  let ?sc = "\<lparr>functions_cov = [\<lparr>ranges = [\<lparr>startOffset = 0, endOffset = n, count = c\<rparr>]\<rparr>]\<rparr>"
  have m: "maximumEndOffset ?sc = n"
    using assms by (simp add: maximumEndOffset_def)
  have len: "length (unusedByIndex (computeWaste ?sc)) = nat n"
    by (simp add: length_computeWaste m)
  have bits: "unusedByIndex (computeWaste ?sc) = replicate (nat n) (if c = 0 then 1 else 0)"
  proof (rule nth_equalityI)
    show "length (unusedByIndex (computeWaste ?sc)) =
        length (replicate (nat n) (if c = 0 then 1 else 0 :: 8 word))"
      by (simp add: len)
  next
    fix k assume k: "k < length (unusedByIndex (computeWaste ?sc))"
    then have "int k < n" by (simp add: len)
    then show "unusedByIndex (computeWaste ?sc) ! k = replicate (nat n) (if c = 0 then 1 else 0) ! k"
      using k by (simp add: nth_computeWaste all_ranges_def in_unused_range_def len)
  qed
  have "unusedLength (computeWaste ?sc) = (if c = 0 then n else 0)"
    using assms by (simp add: unusedLength_computeWaste bits count_unused_def)
  moreover have "contentLength (computeWaste ?sc) = n"
    by (simp add: contentLength_computeWaste m)
  ultimately show ?thesis
    using bits by (intro wasteData.equality) simp_all
qed

text \<open>
  Claim C2. For the two executions of a script of 100 bytes, one with the range
  \<open>[0, 100)\<close> of count 0 and one with the range \<open>[0, 100)\<close> of count 5,
  \<open>determineLengths\<close> adds the lengths up to \<open>content = 200\<close> and \<open>unused = 100\<close>,
  while \<open>createSourceWastedBytes\<close> attributes no byte to any source, whatever the bundle:
  its result is the empty object (and \<open>undefined\<close> for a bundle without text), because no
  offset is unused in both bitmaps.
\<close>

theorem divergence_sum_and:
  "determineLengths est [computeWaste execution_A, computeWaste execution_B] nr =
     \<lparr>content = 200, unused = 100, transfer = est nr 200 ''Script''\<rparr>
   \<and> createSourceWastedBytes [computeWaste execution_A, computeWaste execution_B] b l =
       (if script_content b = None \<or> script_content b = Some [] then None else Some [])
   \<and> \<not> unused_in_every [computeWaste execution_A, computeWaste execution_B] off"
proof -
  have A: "computeWaste execution_A =
      \<lparr>unusedByIndex = replicate 100 1, unusedLength = 100, contentLength = 100\<rparr>"
    using computeWaste_single_range [of 100 0] by simp
  have B: "computeWaste execution_B =
      \<lparr>unusedByIndex = replicate 100 0, unusedLength = 0, contentLength = 100\<rparr>"
    using computeWaste_single_range [of 100 5] by simp
  have never: "\<not> unused_in_every [computeWaste execution_A, computeWaste execution_B] off" for off
    by (rule never_unused [of "computeWaste execution_B"]) (simp_all add: B)
  have "determineLengths est [computeWaste execution_A, computeWaste execution_B] nr =
      \<lparr>content = 200, unused = 100, transfer = est nr 200 ''Script''\<rparr>"
    by (simp add: determineLengths_def sum_usage_sums A B)
  with never createSourceWastedBytes_nothing [OF never] show ?thesis
    by blast
qed

theorem divergence_sum_and_witness:
  "determineLengths identity_estimate [computeWaste execution_A, computeWaste execution_B]
     \<lparr>url = ''u''\<rparr> = \<lparr>content = 200, unused = 100, transfer = 200\<rparr>
   \<and> createSourceWastedBytes [computeWaste execution_A, computeWaste execution_B]
       example_bundle lengths_zero = Some []"
  using divergence_sum_and [of identity_estimate "\<lparr>url = ''u''\<rparr>" example_bundle lengths_zero]
  by (simp add: identity_estimate_def)

lemma attribute_offset_invariants:
  "distinct (map fst files) \<Longrightarrow> distinct (map fst (attribute_offset wd src off files))"
  "ordinary_name src \<Longrightarrow> positive_counts files \<Longrightarrow>
     positive_counts (attribute_offset wd src off files)"
  "fst ` set (attribute_offset wd src off files) \<subseteq> insert src (fst ` set files)"
  using keys_increment [of files src]
  by (auto simp: attribute_offset_def distinct_increment positive_counts_increment)

lemma attribute_loop_invariants:
  "(distinct (map fst files) \<longrightarrow> distinct (map fst (attribute_loop wd src lastCol i off files)))
   \<and> (ordinary_name src \<and> positive_counts files \<longrightarrow>
        positive_counts (attribute_loop wd src lastCol i off files))
   \<and> fst ` set (attribute_loop wd src lastCol i off files) \<subseteq> insert src (fst ` set files)"
proof (induction wd src lastCol i off files rule: attribute_loop.induct)
  case (1 wd src i off files)
  then show ?case by auto
next
  case (2 wd src l i off files)
  show ?case
  proof (cases "i \<le> l")
    case True
    let ?files = "attribute_offset wd src off files"
    let ?next = "attribute_loop wd src (Some l) (i + 1) (map_option (\<lambda>offset. offset + 1) off) ?files"
    have eq: "attribute_loop wd src (Some l) i off files = ?next"
      using True by (subst attribute_loop.simps) simp
    note IH = "2.IH" [OF True]
    note step = attribute_offset_invariants [where files = files and wd = wd and src = src
        and off = off]
    have "distinct (map fst ?next)" if "distinct (map fst files)"
      using that IH step(1) by blast
    moreover have "positive_counts ?next" if "ordinary_name src \<and> positive_counts files"
      using that IH step(2) by blast
    moreover have "fst ` set ?next \<subseteq> insert src (fst ` set files)"
    proof -
      have "fst ` set ?next \<subseteq> insert src (fst ` set ?files)"
        using IH by (rule conjunct2 [THEN conjunct2])
      also have "\<dots> \<subseteq> insert src (insert src (fst ` set files))"
        using step(3) by (rule insert_mono)
      finally show ?thesis by simp
    qed
    ultimately show ?thesis
      unfolding eq by blast
  next
    case False
    then have "attribute_loop wd src (Some l) i off files = files"
      by (subst attribute_loop.simps) simp
    then show ?thesis by auto
  qed
qed

lemma attribute_mapping_invariants:
  "(distinct (map fst files) \<longrightarrow> distinct (map fst (attribute_mapping wd ll lo m files)))
   \<and> (ordinary_name (sourceURL m) \<and> positive_counts files \<longrightarrow>
        positive_counts (attribute_mapping wd ll lo m files))
   \<and> fst ` set (attribute_mapping wd ll lo m files) \<subseteq> insert (sourceURL m) (fst ` set files)"
  unfolding attribute_mapping_def by (rule attribute_loop_invariants)

lemma fold_attribute_mapping_invariants:
  "(distinct (map fst files) \<longrightarrow> distinct (map fst (fold (attribute_mapping wd ll lo) ms files)))
   \<and> ((\<forall>m \<in> set ms. ordinary_name (sourceURL m)) \<and> positive_counts files \<longrightarrow>
        positive_counts (fold (attribute_mapping wd ll lo) ms files))
   \<and> fst ` set (fold (attribute_mapping wd ll lo) ms files) \<subseteq> sourceURL ` set ms \<union> fst ` set files"
proof (induction ms arbitrary: files)
  case Nil
  then show ?case by simp
next
  case (Cons m ms)
  note step = attribute_mapping_invariants [where files = files and wd = wd and ll = ll
      and lo = lo and m = m]
  note rest = Cons.IH [where files = "attribute_mapping wd ll lo m files"]
  have f: "fold (attribute_mapping wd ll lo) (m # ms) files =
      fold (attribute_mapping wd ll lo) ms (attribute_mapping wd ll lo m files)"
    by simp
  have "distinct (map fst (fold (attribute_mapping wd ll lo) (m # ms) files))"
    if "distinct (map fst files)"
    unfolding f using that step rest by blast
  moreover have "positive_counts (fold (attribute_mapping wd ll lo) (m # ms) files)"
    if "(\<forall>m' \<in> set (m # ms). ordinary_name (sourceURL m')) \<and> positive_counts files"
  proof -
    from that have "ordinary_name (sourceURL m) \<and> positive_counts files"
      and ms: "\<forall>m' \<in> set ms. ordinary_name (sourceURL m')"
      by simp_all
    with step have "positive_counts (attribute_mapping wd ll lo m files)"
      by blast
    with ms rest show ?thesis
      unfolding f by blast
  qed
  moreover have "fst ` set (fold (attribute_mapping wd ll lo) (m # ms) files)
      \<subseteq> sourceURL ` set (m # ms) \<union> fst ` set files"
  proof -
    have a: "fst ` set (attribute_mapping wd ll lo m files) \<subseteq> insert (sourceURL m) (fst ` set files)"
      using step by (rule conjunct2 [THEN conjunct2])
    have "fst ` set (fold (attribute_mapping wd ll lo) ms (attribute_mapping wd ll lo m files))
        \<subseteq> sourceURL ` set ms \<union> fst ` set (attribute_mapping wd ll lo m files)"
      using rest by (rule conjunct2 [THEN conjunct2])
    also have "\<dots> \<subseteq> sourceURL ` set ms \<union> insert (sourceURL m) (fst ` set files)"
      using a by (rule Un_mono [OF subset_refl])
    also have "\<dots> = sourceURL ` set (m # ms) \<union> fst ` set files"
      by simp
    finally show ?thesis
      unfolding f .
  qed
  ultimately show ?case by blast
qed

lemma collect_files_invariants:
  "distinct (map fst (collect_files wd t ms))"
  "(\<And>m. m \<in> set ms \<Longrightarrow> ordinary_name (sourceURL m)) \<Longrightarrow> positive_counts (collect_files wd t ms)"
  "fst ` set (collect_files wd t ms) \<subseteq> sourceURL ` set ms"
  using fold_attribute_mapping_invariants [where files = "[]" and wd = wd
      and ll = "lineLengths_of t" and lo = "lineOffsets_from 0 (lineLengths_of t)"
      and ms = ms]
  by (simp_all add: collect_files_def Let_def positive_counts_def)

lemma unused_in_every_Nil [simp]: "unused_in_every [] off"
  by (simp add: unused_in_every_def)

lemma counts_of_attribute_loop_Nil:
  "wd = [] \<Longrightarrow> ordinary_name src \<Longrightarrow> positive_counts files \<Longrightarrow>
   counts_of (attribute_loop wd src lastCol i off files) k =
     counts_of files k +
       (if k = src then (case lastCol of None \<Rightarrow> 0
                         | Some l \<Rightarrow> if i \<le> l then l + 1 - i else 0) else 0)"
proof (induction wd src lastCol i off files rule: attribute_loop.induct)
  case (1 wd src i off files)
  then show ?case by simp
next
  case (2 wd src l i off files)
  show ?case
  proof (cases "i \<le> l")
    case True
    have eq: "attribute_loop wd src (Some l) i off files =
        attribute_loop wd src (Some l) (i + 1) (map_option (\<lambda>offset. offset + 1) off)
          (attribute_offset wd src off files)"
      using True by (subst attribute_loop.simps) simp
    have inc: "attribute_offset wd src off files = increment files src"
      using "2.prems"(1) by (simp add: attribute_offset_def)
    have step: "counts_of (attribute_offset wd src off files) k =
        counts_of files k + (if k = src then 1 else 0)"
      unfolding inc using "2.prems"(2,3) by (rule counts_of_increment)
    have pos: "positive_counts (attribute_offset wd src off files)"
      unfolding inc using "2.prems"(2,3) by (rule positive_counts_increment)
    show ?thesis
      unfolding eq using "2.IH" [OF True "2.prems"(1,2) pos] step True by simp
  next
    case False
    then have "attribute_loop wd src (Some l) i off files = files"
      by (subst attribute_loop.simps) simp
    with False show ?thesis by simp
  qed
qed

lemma counts_of_attribute_mapping_Nil:
  "ordinary_name (sourceURL m) \<Longrightarrow> positive_counts files \<Longrightarrow>
   counts_of (attribute_mapping [] ll lo m files) k =
     counts_of files k + (if k = sourceURL m then covered ll m else 0)"
  by (simp add: attribute_mapping_def counts_of_attribute_loop_Nil covered_def)

lemma counts_of_fold_Nil:
  "(\<And>m. m \<in> set ms \<Longrightarrow> ordinary_name (sourceURL m)) \<Longrightarrow> positive_counts files \<Longrightarrow>
   counts_of (fold (attribute_mapping [] ll lo) ms files) k =
     counts_of files k + sum_list (map (covered ll) (filter (\<lambda>m. sourceURL m = k) ms))"
proof (induction ms arbitrary: files)
  case Nil
  then show ?case by simp
next
  case (Cons m ms)
  have o: "ordinary_name (sourceURL m)"
    using Cons.prems(1) by simp
  have pos: "positive_counts (attribute_mapping [] ll lo m files)"
    using attribute_mapping_invariants [where files = files and wd = "[]" and ll = ll
        and lo = lo and m = m] o Cons.prems(2)
    by blast
  have "counts_of (fold (attribute_mapping [] ll lo) (m # ms) files) k =
      counts_of (fold (attribute_mapping [] ll lo) ms (attribute_mapping [] ll lo m files)) k"
    by simp
  also have "\<dots> = counts_of (attribute_mapping [] ll lo m files) k +
      sum_list (map (covered ll) (filter (\<lambda>m. sourceURL m = k) ms))"
    using Cons.prems(1) pos by (intro Cons.IH) simp_all
  also have "\<dots> = counts_of files k +
      sum_list (map (covered ll) (filter (\<lambda>m. sourceURL m = k) (m # ms)))"
    by (simp add: counts_of_attribute_mapping_Nil [OF o Cons.prems(2)])
  finally show ?case .
qed

lemma counts_of_collect_files_Nil:
  assumes "\<And>m. m \<in> set ms \<Longrightarrow> ordinary_name (sourceURL m)"
  shows "counts_of (collect_files [] t ms) k = attributed t ms k"
proof -
  have z: "counts_of [] k = 0"
    by (simp add: counts_of_def)
  have p: "positive_counts []"
    by (simp add: positive_counts_def)
  show ?thesis
    unfolding collect_files_def Let_def attributed_def
    using counts_of_fold_Nil [OF assms p, of ms "lineLengths_of t"
        "lineOffsets_from 0 (lineLengths_of t)" k] z
    by simp
qed

lemma covered_nonneg: "0 \<le> covered ll m"
  by (simp add: covered_def split: option.splits)

lemma attributed_positive:
  assumes "m \<in> set ms" and "0 < covered (lineLengths_of t) m"
  shows "0 < attributed t ms (sourceURL m)"
proof -
  let ?xs = "map (covered (lineLengths_of t)) (filter (\<lambda>m'. sourceURL m' = sourceURL m) ms)"
  have "covered (lineLengths_of t) m \<in> set ?xs"
    using assms(1) by auto
  moreover have "\<And>x. x \<in> set ?xs \<Longrightarrow> 0 \<le> x"
    by (auto simp: covered_nonneg)
  ultimately have "covered (lineLengths_of t) m \<le> sum_list ?xs"
    by (intro member_le_sum_list) auto
  with assms(2) show ?thesis
    by (simp add: attributed_def)
qed

lemma map_of_fold_obj_set:
  "distinct (map fst es) \<Longrightarrow> ''__proto__'' \<notin> fst ` set es \<Longrightarrow>
   map_of (fold (\<lambda>(key, unusedBytes) ob. obj_set ob key unusedBytes) es ob) =
     map_of ob ++ map_of es"
proof (induction es arbitrary: ob)
  case Nil
  then show ?case by simp
next
  case (Cons p es)
  obtain k v where p: "p = (k, v)" by (cases p)
  from Cons.prems p have d: "distinct (map fst es)" and nk: "map_of es k = None"
    and np: "''__proto__'' \<notin> fst ` set es" and kp: "k \<noteq> ''__proto__''"
    by (auto simp: map_of_None_iff)
  have "map_of (fold (\<lambda>(key, unusedBytes) ob. obj_set ob key unusedBytes) (p # es) ob) =
      map_of (obj_set ob k v) ++ map_of es"
    using Cons.IH [OF d np] by (simp add: p)
  also have "\<dots> = map_of ob ++ map_of (p # es)"
    using nk by (auto simp: p map_of_obj_set [OF kp] map_add_def fun_eq_iff split: option.splits)
  finally show ?case .
qed

lemma map_of_bundleData:
  "distinct (map fst es) \<Longrightarrow> ''__proto__'' \<notin> fst ` set es \<Longrightarrow>
   map_of (bundleData es) = map_of es"
  by (simp add: bundleData_def map_of_fold_obj_set)

lemma set_insert_sorted: "set (insert_sorted x xs) = insert x (set xs)"
  by (induction xs) auto

lemma set_dataSorted: "set (dataSorted files) = set files"
  unfolding dataSorted_def by (induction files) (simp_all add: set_insert_sorted)

lemma distinct_keys_insert_sorted:
  "distinct (map fst (insert_sorted x xs)) \<longleftrightarrow> fst x \<notin> fst ` set xs \<and> distinct (map fst xs)"
  by (induction xs) (auto simp: set_insert_sorted)

lemma distinct_keys_dataSorted:
  "distinct (map fst files) \<Longrightarrow> distinct (map fst (dataSorted files))"
proof (induction files)
  case Nil
  then show ?case by (simp add: dataSorted_def)
next
  case (Cons x files)
  then have "distinct (map fst (dataSorted files))" and "fst x \<notin> fst ` set (dataSorted files)"
    by (simp_all add: set_dataSorted)
  then have "distinct (map fst (insert_sorted x (dataSorted files)))"
    by (simp add: distinct_keys_insert_sorted)
  then show ?case
    by (simp add: dataSorted_def)
qed

lemma map_of_dataSorted:
  assumes "distinct (map fst files)"
  shows "map_of (dataSorted files) = map_of files"
  using assms distinct_keys_dataSorted [OF assms]
  by (simp add: map_of_inject_set set_dataSorted)

lemma map_of_result:
  "distinct (map fst files) \<Longrightarrow> ''__proto__'' \<notin> fst ` set files \<Longrightarrow>
   map_of (bundleData (dataSorted files)) = map_of files"
  by (simp add: map_of_bundleData distinct_keys_dataSorted map_of_dataSorted set_dataSorted)

lemma fold_obj_set_plain:
  "distinct (map fst (ob @ es)) \<Longrightarrow>
   (\<And>k. k \<in> fst ` set es \<Longrightarrow> array_index k = None \<and> k \<noteq> ''__proto__'') \<Longrightarrow>
   fold (\<lambda>(key, unusedBytes) ob. obj_set ob key unusedBytes) es ob = ob @ es"
proof (induction es arbitrary: ob)
  case Nil
  then show ?case by simp
next
  case (Cons p es)
  obtain k v where p: "p = (k, v)" by (cases p)
  from Cons.prems(1) p have nk: "k \<notin> fst ` set ob" and d: "distinct (map fst ((ob @ [(k, v)]) @ es))"
    by auto
  have plain: "obj_set ob k v = ob @ [(k, v)]"
    using Cons.prems(2) [of k] nk by (intro obj_set_plain) (simp_all add: p)
  have "fold (\<lambda>(key, unusedBytes) ob. obj_set ob key unusedBytes) (p # es) ob =
      fold (\<lambda>(key, unusedBytes) ob. obj_set ob key unusedBytes) es (ob @ [(k, v)])"
    by (simp add: p plain)
  also have "\<dots> = (ob @ [(k, v)]) @ es"
    using d Cons.prems(2) by (intro Cons.IH) (simp_all add: p)
  finally show ?case by (simp add: p)
qed

lemma bundleData_plain:
  "distinct (map fst es) \<Longrightarrow>
   (\<And>k. k \<in> fst ` set es \<Longrightarrow> array_index k = None \<and> k \<noteq> ''__proto__'') \<Longrightarrow>
   bundleData es = es"
  using fold_obj_set_plain [of "[]" es] by (simp add: bundleData_def)

lemma insert_sorted_descending:
  assumes "sorted_wrt (\<lambda>a b. num_of (snd b) \<le> num_of (snd a)) xs"
    and "\<And>y. y \<in> set (x # xs) \<Longrightarrow> is_count (snd y)"
  shows "sorted_wrt (\<lambda>a b. num_of (snd b) \<le> num_of (snd a)) (insert_sorted x xs)"
  using assms
proof (induction xs)
  case Nil
  then show ?case by simp
next
  case (Cons y ys)
  obtain n where n: "snd x = Num n"
    using Cons.prems(2) [of x] by (cases "snd x") (simp_all add: is_count_def)
  obtain n' where n': "snd y = Num n'"
    using Cons.prems(2) [of y] by (cases "snd y") (simp_all add: is_count_def)
  have hx: "num_of (snd x) = n" and hy: "num_of (snd y) = n'"
    by (simp_all add: num_of_def n n')
  have tail: "\<And>z. z \<in> set ys \<Longrightarrow> num_of (snd z) \<le> num_of (snd y)"
    using Cons.prems(1) by simp
  show ?case
  proof (cases "sorts_before x y")
    case True
    then have le: "num_of (snd y) \<le> num_of (snd x)"
      by (simp add: sorts_before_def compare_unused_def n n' num_of_def)
    have "num_of (snd z) \<le> num_of (snd x)" if "z \<in> set (y # ys)" for z
    proof (cases "z = y")
      case True
      with le show ?thesis by simp
    next
      case False
      with that have "z \<in> set ys" by simp
      from tail [OF this] le show ?thesis by simp
    qed
    then have "sorted_wrt (\<lambda>a b. num_of (snd b) \<le> num_of (snd a)) (x # y # ys)"
      using Cons.prems(1) by (simp only: sorted_wrt.simps) blast
    with True show ?thesis
      by simp
  next
    case False
    then have lt: "num_of (snd x) \<le> num_of (snd y)"
      by (simp add: sorts_before_def compare_unused_def n n' num_of_def)
    have rest: "sorted_wrt (\<lambda>a b. num_of (snd b) \<le> num_of (snd a)) (insert_sorted x ys)"
      using Cons.prems by (intro Cons.IH) auto
    have "num_of (snd z) \<le> num_of (snd y)" if "z \<in> set (insert_sorted x ys)" for z
    proof (cases "z = x")
      case True
      with lt show ?thesis by simp
    next
      case False
      with that have "z \<in> set ys" by (simp add: set_insert_sorted)
      then show ?thesis by (rule tail)
    qed
    with rest have "sorted_wrt (\<lambda>a b. num_of (snd b) \<le> num_of (snd a)) (y # insert_sorted x ys)"
      by (simp only: sorted_wrt.simps) blast
    with False show ?thesis
      by simp
  qed
qed

lemma dataSorted_descending:
  "positive_counts files \<Longrightarrow>
   sorted_wrt (\<lambda>a b. num_of (snd b) \<le> num_of (snd a)) (dataSorted files)"
proof (induction files)
  case Nil
  then show ?case by (simp add: dataSorted_def)
next
  case (Cons x files)
  then have s: "sorted_wrt (\<lambda>a b. num_of (snd b) \<le> num_of (snd a)) (dataSorted files)"
    by (simp add: positive_counts_def)
  have "\<And>y. y \<in> set (x # dataSorted files) \<Longrightarrow> is_count (snd y)"
    using Cons.prems by (auto simp: positive_counts_def list_all_iff set_dataSorted)
  with s have "sorted_wrt (\<lambda>a b. num_of (snd b) \<le> num_of (snd a))
      (insert_sorted x (dataSorted files))"
    by (rule insert_sorted_descending)
  then show ?case
    by (simp add: dataSorted_def)
qed

lemma createSourceWastedBytes_Some:
  assumes "createSourceWastedBytes wd b l = Some ob"
  shows "\<exists>t. script_content b = Some t \<and> t \<noteq> [] \<and>
              ob = bundleData (dataSorted (collect_files wd t (map_mappings b)))"
proof (cases "script_content b")
  case None
  with assms show ?thesis by (simp add: createSourceWastedBytes_def)
next
  case (Some t)
  with assms show ?thesis
    by (cases "t = []") (simp_all add: createSourceWastedBytes_def)
qed

text \<open>
  When no source is named by an array index or by a member of \<open>Object.prototype\<close>, the
  result holds counts and keeps the order of the sorted entries: the counts never
  increase along the object.
\<close>

lemma descending_without_index_keys:
  assumes "\<And>m. m \<in> set (map_mappings b) \<Longrightarrow>
      array_index (sourceURL m) = None \<and> ordinary_name (sourceURL m)"
    and "createSourceWastedBytes wd b l = Some ob"
  shows "positive_counts ob \<and> sorted_wrt (\<lambda>a b. num_of (snd b) \<le> num_of (snd a)) ob"
proof -
  from createSourceWastedBytes_Some [OF assms(2)]
  obtain t where ob: "ob = bundleData (dataSorted (collect_files wd t (map_mappings b)))"
    by blast
  let ?files = "collect_files wd t (map_mappings b)"
  have keys: "fst ` set (dataSorted ?files) \<subseteq> sourceURL ` set (map_mappings b)"
    using collect_files_invariants(3) [of wd t "map_mappings b"] by (simp add: set_dataSorted)
  have plain: "array_index k = None \<and> k \<noteq> ''__proto__''"
    if "k \<in> fst ` set (dataSorted ?files)" for k
  proof -
    from that keys obtain m where "m \<in> set (map_mappings b)" "k = sourceURL m"
      by blast
    with assms(1) show ?thesis by (simp add: ordinary_not_proto)
  qed
  have pos: "positive_counts ?files"
    using assms(1) by (intro collect_files_invariants(2)) simp
  have "distinct (map fst (dataSorted ?files))"
    by (rule distinct_keys_dataSorted) (rule collect_files_invariants(1))
  then have eq: "bundleData (dataSorted ?files) = dataSorted ?files"
    using plain by (rule bundleData_plain)
  have "positive_counts (dataSorted ?files)"
    using pos by (simp add: positive_counts_def list_all_iff set_dataSorted)
  then show ?thesis
    using dataSorted_descending [OF pos] by (simp add: ob eq)
qed

text \<open>
  Claim C5. Reading a bitmap at an offset at or beyond its length gives \<open>undefined\<close>,
  not a fault; \<open>undefined\<close> is not 1, so the test over all bitmaps fails at that offset
  and the loop body leaves \<open>files\<close> as it is: the offset counts as used.
\<close>

theorem out_of_bounds_offset_is_used:
  assumes "data \<in> set wasteData" and "int (length (unusedByIndex data)) \<le> offset"
  shows "read_unused data (Some offset) = None
    \<and> \<not> unused_in_every wasteData (Some offset)
    \<and> attribute_offset wasteData src (Some offset) files = files"
proof -
  have r: "read_unused data (Some offset) = None"
    using assms(2) by (simp add: read_unused_def js_nth_beyond)
  have "\<not> unused_in_every wasteData (Some offset)"
  proof
    assume "unused_in_every wasteData (Some offset)"
    with assms(1) have "read_unused data (Some offset) = Some 1"
      by (simp add: unused_in_every_def list_all_iff)
    with r show False by simp
  qed
  with r show ?thesis
    by (simp add: attribute_offset_def)
qed

theorem out_of_bounds_offset_is_used_witness:
  "computeWaste unused_six \<in> set [computeWaste unused_six]
   \<and> int (length (unusedByIndex (computeWaste unused_six))) \<le> 6
   \<and> read_unused (computeWaste unused_six) (Some 6) = None
   \<and> read_unused (computeWaste unused_six) (Some 5) = Some 1
   \<and> attribute_offset [computeWaste unused_six] ''a.js'' (Some 6) [] = []
   \<and> attribute_offset [computeWaste unused_six] ''a.js'' (Some 5) [] = [(''a.js'', Num 1)]"
proof -
  have m: "computeWaste unused_six \<in> set [computeWaste unused_six]"
    by simp
  have l: "int (length (unusedByIndex (computeWaste unused_six))) \<le> 6"
    by (simp add: length_computeWaste maximumEndOffset_def)
  note out = out_of_bounds_offset_is_used [OF m l, of "''a.js''" "[]"]
  have "read_unused (computeWaste unused_six) (Some 5) = Some 1"
    by code_simp
  moreover have "attribute_offset [computeWaste unused_six] ''a.js'' (Some 5) [] =
      [(''a.js'', Num 1)]"
    by code_simp
  ultimately show ?thesis
    using m l out by blast
qed

lemma createSourceWastedBytes_None_iff:
  "createSourceWastedBytes wd b l = None \<longleftrightarrow>
     script_content b = None \<or> script_content b = Some []"
  by (cases "script_content b") (simp_all add: createSourceWastedBytes_def)

text \<open>
  With no execution at all the test over all bitmaps is true at every offset, so every
  run of the inner loop counts. When no source is named as a member of
  \<open>Object.prototype\<close>, the result for a bundle with a text is an object in which a
  source has the number of columns that its mappings cover, and is missing only when that
  number is 0; as soon as one mapping covers a column the object is not empty.
\<close>

lemma empty_executions_ordinary_names:
  assumes "t \<noteq> []" and "\<And>m. m \<in> set ms \<Longrightarrow> ordinary_name (sourceURL m)"
  shows "\<exists>ob. createSourceWastedBytes [] \<lparr>script_content = Some t, map_mappings = ms\<rparr> l = Some ob
    \<and> (\<forall>src. map_of ob src =
          (if attributed t ms src = 0 then None else Some (Num (attributed t ms src))))
    \<and> ((\<exists>m \<in> set ms. 0 < covered (lineLengths_of t) m) \<longrightarrow> ob \<noteq> [])"
proof -
  let ?files = "collect_files [] t ms"
  let ?ob = "bundleData (dataSorted ?files)"
  have res: "createSourceWastedBytes [] \<lparr>script_content = Some t, map_mappings = ms\<rparr> l = Some ?ob"
    using assms(1) by (simp add: createSourceWastedBytes_def)
  have "''__proto__'' \<notin> fst ` set ?files"
  proof
    assume "''__proto__'' \<in> fst ` set ?files"
    with collect_files_invariants(3) [of "[]" t ms]
    obtain m where "m \<in> set ms" and "sourceURL m = ''__proto__''"
      by auto
    from assms(2) [OF this(1)] have "sourceURL m \<noteq> ''__proto__''"
      by (rule ordinary_not_proto)
    with \<open>sourceURL m = ''__proto__''\<close> show False
      by simp
  qed
  then have m: "map_of ?ob = map_of ?files"
    by (intro map_of_result collect_files_invariants(1))
  have pos: "positive_counts ?files"
    using assms(2) by (rule collect_files_invariants(2))
  have get: "map_of ?ob src =
      (if attributed t ms src = 0 then None else Some (Num (attributed t ms src)))" for src
    using map_of_positive [OF pos, of src]
    by (simp add: m counts_of_collect_files_Nil [OF assms(2)])
  have "?ob \<noteq> []" if "\<exists>m \<in> set ms. 0 < covered (lineLengths_of t) m"
  proof -
    from that obtain m where "m \<in> set ms" "0 < covered (lineLengths_of t) m"
      by blast
    then have "0 < attributed t ms (sourceURL m)"
      by (rule attributed_positive)
    with get [of "sourceURL m"] have "map_of ?ob (sourceURL m) \<noteq> None"
      by simp
    then show ?thesis
      by auto
  qed
  with res get show ?thesis
    by simp
qed

text \<open>
  Claim C10 at a source map with the one source \<open>__proto__\<close>, over the text \<open>abc\<close> and
  no execution. The mapping covers the four offsets 0 to 3 and the test over all
  bitmaps is true at each, but \<open>files[mapping.sourceURL]\<close> reads the prototype of
  \<open>files\<close> and the assignment to \<open>__proto__\<close> stores nothing: the result is the empty
  object. For the source \<open>constructor\<close> the read finds the function \<open>Object\<close>, and the
  entry is a string, not a count.
\<close>

theorem prototype_source_not_attributed:
  "unused_in_every [] (Some 0)
   \<and> covered (lineLengths_of ''abc'') (hd (map_mappings bundle_proto_source)) = 4
   \<and> createSourceWastedBytes [] bundle_proto_source lengths_zero = Some []
   \<and> createSourceWastedBytes []
       \<lparr>script_content = Some ''abc'',
        map_mappings = [\<lparr>lineNumber = 0, columnNumber = 0, lastColumnNumber = None,
                         sourceURL = ''constructor''\<rparr>]\<rparr> lengths_zero
     = Some [(''constructor'', Text ''constructor'' 4)]"
  by code_simp

section \<open>Properties of compute_\<close>

lemma compute_summary_Fulfilled:
  assumes "list_all (engine_completes eng) (scriptCoverages data)"
  shows "compute_summary eng est data =
     Fulfilled ((mergeWaste (map computeWaste (scriptCoverages data)) (url (networkRecord data))
         (determineLengths est (map computeWaste (scriptCoverages data)) (networkRecord data)))
       \<lparr>sourcesWastedBytes :=
          (case bundle_opt data of
             None \<Rightarrow> Missing
           | Some b \<Rightarrow> Present (createSourceWastedBytes (map computeWaste (scriptCoverages data)) b
               (determineLengths est (map computeWaste (scriptCoverages data))
                 (networkRecord data))))\<rparr>)"
  using assms
  by (cases "bundle_opt data") (simp_all add: compute_summary_def Let_def mergeWaste_def)

lemma compute_summary_Rejected:
  "\<not> list_all (engine_completes eng) (scriptCoverages data) \<Longrightarrow>
   compute_summary eng est data = Rejected RangeError"
  by (simp add: compute_summary_def)

text \<open>
  Claim C6 as it is worded fails. For a bundle without a text \<open>createSourceWastedBytes\<close>
  returns \<open>undefined\<close>, and the object literal of \<open>compute_\<close> still creates the property
  \<open>sourcesWastedBytes\<close>, with the value \<open>undefined\<close>: the Summary does not omit the field.
\<close>

theorem sourcesWastedBytes_present_counterexample:
  "createSourceWastedBytes [computeWaste seven_of_ten] \<lparr>script_content = None, map_mappings = []\<rparr>
     (determineLengths identity_estimate [computeWaste seven_of_ten] \<lparr>url = ''u''\<rparr>) = None
   \<and> compute_summary example_engine identity_estimate
       \<lparr>networkRecord = \<lparr>url = ''u''\<rparr>, scriptCoverages = [seven_of_ten],
        bundle_opt = Some \<lparr>script_content = None, map_mappings = []\<rparr>\<rparr>
     = Fulfilled \<lparr>item_url = ''u'', totalBytes = 10, wastedBytes = Fin 7,
         wastedPercent = Fin 70, sourcesWastedBytes = Present None\<rparr>
   \<and> Present None \<noteq> (Missing :: jsobject option property)"
  by code_simp

text \<open>
  Claim C6, as the code has it. On every input that the engine completes, \<open>compute_\<close>
  fulfils with a Summary whose property \<open>sourcesWastedBytes\<close> is missing when no bundle
  is supplied, and present when one is, holding what \<open>createSourceWastedBytes\<close>
  returned: \<open>undefined\<close> when the bundle has no text (a missing or an empty \<open>content\<close>),
  and otherwise the mapping. So the property holds a mapping only when a bundle with a
  text was supplied and \<open>createSourceWastedBytes\<close> returned that mapping.
\<close>

theorem sourcesWastedBytes_holds_the_result:
  assumes "list_all (engine_completes eng) (scriptCoverages data)"
  shows "\<exists>s. compute_summary eng est data = Fulfilled s
    \<and> (bundle_opt data = None \<longleftrightarrow> sourcesWastedBytes s = Missing)
    \<and> (\<forall>b. bundle_opt data = Some b \<longrightarrow>
          sourcesWastedBytes s =
            Present (createSourceWastedBytes (map computeWaste (scriptCoverages data)) b
              (determineLengths est (map computeWaste (scriptCoverages data)) (networkRecord data)))
          \<and> (sourcesWastedBytes s = Present None \<longleftrightarrow>
               script_content b = None \<or> script_content b = Some []))
    \<and> (\<forall>ob. sourcesWastedBytes s = Present (Some ob) \<longrightarrow>
          (\<exists>b t. bundle_opt data = Some b \<and> script_content b = Some t \<and> t \<noteq> []
             \<and> createSourceWastedBytes (map computeWaste (scriptCoverages data)) b
                 (determineLengths est (map computeWaste (scriptCoverages data))
                   (networkRecord data)) = Some ob))"
proof -
  let ?wd = "map computeWaste (scriptCoverages data)"
  let ?l = "determineLengths est ?wd (networkRecord data)"
  define s where "s = (mergeWaste ?wd (url (networkRecord data)) ?l)
       \<lparr>sourcesWastedBytes :=
          (case bundle_opt data of None \<Rightarrow> Missing
           | Some b \<Rightarrow> Present (createSourceWastedBytes ?wd b ?l))\<rparr>"
  have f: "compute_summary eng est data = Fulfilled s"
    unfolding s_def using assms by (rule compute_summary_Fulfilled)
  have a: "bundle_opt data = None \<longleftrightarrow> sourcesWastedBytes s = Missing"
    by (cases "bundle_opt data") (simp_all add: s_def)
  have b: "sourcesWastedBytes s = Present (createSourceWastedBytes ?wd b ?l)
      \<and> (sourcesWastedBytes s = Present None \<longleftrightarrow>
           script_content b = None \<or> script_content b = Some [])"
    if "bundle_opt data = Some b" for b
    using that createSourceWastedBytes_None_iff [of ?wd b ?l] by (simp add: s_def)
  have c: "\<exists>b t. bundle_opt data = Some b \<and> script_content b = Some t \<and> t \<noteq> []
      \<and> createSourceWastedBytes ?wd b ?l = Some ob"
    if "sourcesWastedBytes s = Present (Some ob)" for ob
  proof (cases "bundle_opt data")
    case None
    with that show ?thesis by (simp add: s_def)
  next
    case (Some b')
    with that have r: "createSourceWastedBytes ?wd b' ?l = Some ob"
      by (simp add: s_def)
    from createSourceWastedBytes_Some [OF r] Some r show ?thesis
      by blast
  qed
  show ?thesis
  proof (intro exI [of _ s] conjI allI impI)
    show "compute_summary eng est data = Fulfilled s" by (rule f)
    show "bundle_opt data = None \<longleftrightarrow> sourcesWastedBytes s = Missing" by (rule a)
    show "sourcesWastedBytes s = Present (createSourceWastedBytes ?wd b ?l)"
      if "bundle_opt data = Some b" for b
      using b [OF that] by (rule conjunct1)
    show "sourcesWastedBytes s = Present None \<longleftrightarrow>
        script_content b = None \<or> script_content b = Some []"
      if "bundle_opt data = Some b" for b
      using b [OF that] by (rule conjunct2)
    show "\<exists>b t. bundle_opt data = Some b \<and> script_content b = Some t \<and> t \<noteq> []
        \<and> createSourceWastedBytes ?wd b ?l = Some ob"
      if "sourcesWastedBytes s = Present (Some ob)" for ob
      using that by (rule c)
  qed
qed

theorem sourcesWastedBytes_holds_the_result_witness:
  "list_all (engine_completes example_engine) [unused_six]
   \<and> compute_summary example_engine identity_estimate
     \<lparr>networkRecord = \<lparr>url = ''u''\<rparr>, scriptCoverages = [unused_six],
      bundle_opt = Some \<lparr>script_content = Some [], map_mappings = map_mappings bundle_column_one\<rparr>\<rparr>
     = Fulfilled \<lparr>item_url = ''u'', totalBytes = 6, wastedBytes = Fin 6,
         wastedPercent = Fin 100, sourcesWastedBytes = Present None\<rparr>
   \<and> compute_summary example_engine identity_estimate
     \<lparr>networkRecord = \<lparr>url = ''u''\<rparr>, scriptCoverages = [unused_six],
      bundle_opt = Some example_bundle\<rparr>
     = Fulfilled \<lparr>item_url = ''u'', totalBytes = 6, wastedBytes = Fin 6,
         wastedPercent = Fin 100,
         sourcesWastedBytes = Present (Some [(''a.js'', Num 4), (''b.js'', Num 2)])\<rparr>
   \<and> compute_summary example_engine identity_estimate
     \<lparr>networkRecord = \<lparr>url = ''u''\<rparr>, scriptCoverages = [unused_six], bundle_opt = None\<rparr>
     = Fulfilled \<lparr>item_url = ''u'', totalBytes = 6, wastedBytes = Fin 6,
         wastedPercent = Fin 100, sourcesWastedBytes = Missing\<rparr>"
proof -
  let ?empty = "\<lparr>script_content = Some [], map_mappings = map_mappings bundle_column_one\<rparr>"
  let ?data = "\<lparr>networkRecord = \<lparr>url = ''u''\<rparr>, scriptCoverages = [unused_six],
      bundle_opt = Some ?empty\<rparr>"
  have h: "list_all (engine_completes example_engine) [unused_six]"
    by code_simp
  then have h': "list_all (engine_completes example_engine) (scriptCoverages ?data)"
    by simp
  from sourcesWastedBytes_holds_the_result [OF h', of identity_estimate]
  obtain s where s: "compute_summary example_engine identity_estimate ?data = Fulfilled s"
    and p: "sourcesWastedBytes s = Present None"
    by auto
  have "compute_summary example_engine identity_estimate ?data =
      Fulfilled \<lparr>item_url = ''u'', totalBytes = 6, wastedBytes = Fin 6,
         wastedPercent = Fin 100, sourcesWastedBytes = Present None\<rparr>"
    by code_simp
  moreover have "compute_summary example_engine identity_estimate
     \<lparr>networkRecord = \<lparr>url = ''u''\<rparr>, scriptCoverages = [unused_six],
      bundle_opt = Some example_bundle\<rparr>
     = Fulfilled \<lparr>item_url = ''u'', totalBytes = 6, wastedBytes = Fin 6,
         wastedPercent = Fin 100,
         sourcesWastedBytes = Present (Some [(''a.js'', Num 4), (''b.js'', Num 2)])\<rparr>"
    by code_simp
  moreover have "compute_summary example_engine identity_estimate
     \<lparr>networkRecord = \<lparr>url = ''u''\<rparr>, scriptCoverages = [unused_six], bundle_opt = None\<rparr>
     = Fulfilled \<lparr>item_url = ''u'', totalBytes = 6, wastedBytes = Fin 6,
         wastedPercent = Fin 100, sourcesWastedBytes = Missing\<rparr>"
    by code_simp
  ultimately show ?thesis
    using h s p by blast
qed







lemma endOffset_clamp_start [simp]: "endOffset (clamp_start r) = endOffset r"
  by (simp add: clamp_start_def)








section \<open>The range of a mapping\<close>

lemma attribute_loop_offsets:
  "lastCol = Some l \<Longrightarrow> off = Some x \<Longrightarrow>
   attribute_loop wd src lastCol i off files =
     fold (attribute_offset wd src) (map Some [x .. x + (l - i)]) files"
proof (induction wd src lastCol i off files arbitrary: x rule: attribute_loop.induct)
  case (1 wd src i off files)
  then show ?case by simp
next
  case (2 wd src l' i off files)
  then have l': "l' = l" and off: "off = Some x" by simp_all
  show ?case
  proof (cases "i \<le> l")
    case True
    have eq: "attribute_loop wd src (Some l') i off files =
        attribute_loop wd src (Some l') (i + 1) (map_option (\<lambda>offset. offset + 1) off)
          (attribute_offset wd src off files)"
      using True l' by (subst attribute_loop.simps) simp
    have "attribute_loop wd src (Some l') (i + 1) (map_option (\<lambda>offset. offset + 1) off)
          (attribute_offset wd src off files) =
        fold (attribute_offset wd src) (map Some [x + 1 .. x + 1 + (l - (i + 1))])
          (attribute_offset wd src off files)"
      using True l' off by (intro "2.IH") simp_all
    moreover have "[x .. x + (l - i)] = x # [x + 1 .. x + 1 + (l - (i + 1))]"
      using True by (subst upto_rec1) simp_all
    ultimately show ?thesis
      unfolding eq by (simp add: off)
  next
    case False
    then have "attribute_loop wd src (Some l') i off files = files"
      using l' by (subst attribute_loop.simps) simp
    moreover from False have "[x .. x + (l - i)] = []"
      by simp
    ultimately show ?thesis by simp
  qed
qed

text \<open>
  What a mapping on a line of the text attributes: with \<open>base\<close> the offset of its line
  and \<open>e\<close> its \<open>lastColumnOfMapping\<close>, the loop tests the offsets from
  \<open>base + columnNumber\<close> to \<open>base + e\<close>, both included. \<open>e\<close> is
  \<open>lastColumnNumber - 1\<close> when there is a \<open>lastColumnNumber\<close> other than 1, and the
  length of the line when there is none, and also when it is 1.
\<close>

lemma attribute_mapping_range:
  assumes "js_nth lo (lineNumber m) = Some base" and "lastColumnOfMapping ll m = Some e"
  shows "start_offset lo m = Some (base + columnNumber m)"
    and "attribute_mapping wd ll lo m files =
      fold (attribute_offset wd (sourceURL m))
        (map Some [base + columnNumber m .. base + e]) files"
proof -
  show s: "start_offset lo m = Some (base + columnNumber m)"
    using assms(1) by (simp add: start_offset_def)
  have "attribute_mapping wd ll lo m files =
      fold (attribute_offset wd (sourceURL m))
        (map Some [base + columnNumber m .. base + columnNumber m + (e - columnNumber m)]) files"
    unfolding attribute_mapping_def using assms(2) s by (rule attribute_loop_offsets)
  then show "attribute_mapping wd ll lo m files =
      fold (attribute_offset wd (sourceURL m))
        (map Some [base + columnNumber m .. base + e]) files"
    by simp
qed

lemma lastColumnOfMapping_cases:
  "lastColumnNumber m = Some c \<Longrightarrow> c \<noteq> 1 \<Longrightarrow> lastColumnOfMapping ll m = Some (c - 1)"
  "lastColumnNumber m = None \<Longrightarrow> lastColumnOfMapping ll m = js_nth ll (lineNumber m)"
  "lastColumnNumber m = Some 1 \<Longrightarrow> lastColumnOfMapping ll m = js_nth ll (lineNumber m)"
  by (simp_all add: lastColumnOfMapping_def)

text \<open>
  Claim C4 at a mapping whose next mapping on the line begins at column 1. The claim
  gives the mapping of \<open>a.js\<close> in \<open>abcdef\<close> the one offset 0; in the code
  \<open>lastColumnNumber - 1\<close> is 0, which is falsy, so \<open>lastColumnOfMapping\<close> is the length
  6 of the line and the offsets 0 to 6 are tested: \<open>a.js\<close> gets the six unused bytes
  of the text, five of which \<open>b.js\<close> gets too.
\<close>

theorem last_column_one_takes_line_length:
  "lastColumnOfMapping (lineLengths_of ''abcdef'')
     \<lparr>lineNumber = 0, columnNumber = 0, lastColumnNumber = Some 1, sourceURL = ''a.js''\<rparr> = Some 6
   \<and> createSourceWastedBytes [computeWaste unused_six] bundle_column_one lengths_zero =
       Some [(''a.js'', Num 6), (''b.js'', Num 5)]"
  by code_simp

text \<open>
  Claim C8 at a source map whose sources are named \<open>2\<close> and \<open>1\<close>. The sorted entries
  are \<open>(2, 5), (1, 3)\<close>, but the object built from them lists its array-index keys in
  ascending numeric order, whatever the order of insertion: the result enumerates
  \<open>(1, 3)\<close> before \<open>(2, 5)\<close>, with ascending counts.
\<close>

theorem numeric_sources_not_descending:
  "dataSorted (collect_files [computeWaste unused_eight] ''abcdefgh''
      (map_mappings bundle_numeric_sources)) = [(''2'', Num 5), (''1'', Num 3)]
   \<and> createSourceWastedBytes [computeWaste unused_eight] bundle_numeric_sources lengths_zero =
       Some [(''1'', Num 3), (''2'', Num 5)]"
  by code_simp

end
